theory Spec2Isabelle
  imports Main "HOL-Library.Word" "HOL-Library.Multiset"
begin

unbundle bit_operations_syntax

section \<open>Data model of \<open>lib/tree_sequence.c\<close>\<close>

text \<open>
  Coordinates, node ids and the sample size are \<open>uint32_t\<close>; a \<open>double\<close> is carried as
  its 64-bit IEEE-754 pattern, since the code only ever copies times. Sizes of type
  \<open>size_t\<close> are natural numbers; where the source's unsigned arithmetic on them can wrap
  the wrap-around is written out at that place.
\<close>

type_synonym u32 = "32 word"
type_synonym f64 = "64 word"

text \<open>
  The return codes. \<open>err.h\<close> is not among the sources, so the codes are kept symbolic; all
  of them are negative in the source's tests \<open>ret < 0\<close>. Three further outcomes stand for
  calls that do not return normally: a failed \<open>assert\<close>, undefined behaviour (an access
  through a NULL pointer or outside an array) and a loop that never ends.
\<close>

datatype error =
    MSP_ERR_GENERIC
  | MSP_ERR_NO_MEMORY
  | MSP_ERR_HDF5
  | MSP_ERR_FILE_FORMAT
  | MSP_ERR_OUT_OF_BOUNDS
  | ASSERTION_FAILED
  | UNDEFINED_BEHAVIOUR
  | NEVER_RETURNS

text \<open>An \<open>int\<close> return value: \<open>0\<close>, \<open>1\<close>, or a negative error code.\<close>

datatype ret = Ret0 | Ret1 | Err error

record coalescence_record_t =
  cr_left :: u32
  cr_right :: u32
  cr_node :: u32
  cr_children0 :: u32
  cr_children1 :: u32
  cr_time :: f64

text \<open>
  \<open>tree_sequence_t\<close>. A column is a pointer: \<open>None\<close> is NULL, \<open>Some xs\<close> an allocated
  array with contents \<open>xs\<close>. The \<open>children\<close> column is flat, two entries per record.
\<close>

record tree_sequence_t =
  sample_size :: u32
  num_loci :: u32
  num_records :: nat
  num_breakpoints :: nat
  breakpoints :: "u32 list option"
  left :: "u32 list option"
  right :: "u32 list option"
  node :: "u32 list option"
  children :: "u32 list option"
  time :: "f64 list option"

text \<open>Reading \<open>p[i]\<close>: defined only for an allocated array and an index inside it.\<close>

definition array_get :: "'a list option \<Rightarrow> nat \<Rightarrow> 'a option" where
  "array_get p i =
     (case p of None \<Rightarrow> None
      | Some xs \<Rightarrow> if i < length xs then Some (xs ! i) else None)"

text \<open>Writing \<open>p[i] = v\<close>, likewise.\<close>

definition array_set :: "'a list option \<Rightarrow> nat \<Rightarrow> 'a \<Rightarrow> 'a list option" where
  "array_set p i v =
     (case p of None \<Rightarrow> None
      | Some xs \<Rightarrow> if i < length xs then Some (xs[i := v]) else None)"

subsection \<open>\<open>tree_sequence_get_record\<close>\<close>

text \<open>
  The function receives the store, an index and the caller's record buffer, and returns
  the code together with both objects as it leaves them.
\<close>

definition tree_sequence_get_record ::
  "tree_sequence_t \<Rightarrow> nat \<Rightarrow> coalescence_record_t
     \<Rightarrow> ret \<times> tree_sequence_t \<times> coalescence_record_t" where
  "tree_sequence_get_record self index record =
     (if index < num_records self then
        (case (array_get (left self) index, array_get (right self) index,
               array_get (node self) index, array_get (children self) (2 * index),
               array_get (children self) (2 * index + 1), array_get (time self) index) of
           (Some l, Some r, Some n, Some c0, Some c1, Some t) \<Rightarrow>
             (Ret0, self,
              record\<lparr>cr_left := l, cr_right := r, cr_node := n,
                     cr_children0 := c0, cr_children1 := c1, cr_time := t\<rparr>)
         | _ \<Rightarrow> (Err UNDEFINED_BEHAVIOUR, self, record))
      else (Err MSP_ERR_OUT_OF_BOUNDS, self, record))"

text \<open>
  A store whose arrays are allocated with the lengths its counters announce: what
  \<open>tree_sequence_create\<close> and \<open>tree_sequence_load\<close> build.
\<close>

definition store_allocated :: "tree_sequence_t \<Rightarrow> bool" where
  "store_allocated self \<longleftrightarrow>
     (case (breakpoints self, left self, right self, node self, children self, time self) of
        (Some b, Some l, Some r, Some n, Some c, Some t) \<Rightarrow>
          length b = num_breakpoints self \<and> length l = num_records self \<and>
          length r = num_records self \<and> length n = num_records self \<and>
          length c = 2 * num_records self \<and> length t = num_records self
      | _ \<Rightarrow> False)"

text \<open>The \<open>i\<close>-th stored record, read off the six columns.\<close>

definition stored_record :: "tree_sequence_t \<Rightarrow> nat \<Rightarrow> coalescence_record_t" where
  "stored_record self i =
     \<lparr>cr_left = the (left self) ! i, cr_right = the (right self) ! i,
      cr_node = the (node self) ! i, cr_children0 = the (children self) ! (2 * i),
      cr_children1 = the (children self) ! (2 * i + 1), cr_time = the (time self) ! i\<rparr>"

subsection \<open>Memory\<close>

text \<open>
  \<open>malloc\<close> and \<open>free\<close> belong to the C library. The allocator's state lists the outcomes
  of the allocations to come (\<open>True\<close>: the block is granted; an exhausted list refuses)
  and counts the blocks that are granted and not yet freed. A granted block holds \<open>n\<close>
  elements; their initial contents are indeterminate in C and are never read by the
  code before they are written, so the model fills them with a given element. Sizes are
  counted in elements: the byte counts \<open>n * sizeof(...)\<close> do not wrap for any array that
  fits into memory.
\<close>

record memory =
  mem_plan :: "bool list"
  mem_live :: nat

definition malloc :: "memory \<Rightarrow> nat \<Rightarrow> 'a \<Rightarrow> 'a list option \<times> memory" where
  "malloc mem n fill =
     (case mem_plan mem of
        [] \<Rightarrow> (None, mem)
      | ok # rest \<Rightarrow>
          if ok then (Some (replicate n fill), mem\<lparr>mem_plan := rest, mem_live := mem_live mem + 1\<rparr>)
          else (None, mem\<lparr>mem_plan := rest\<rparr>))"

text \<open>\<open>if (p != NULL) free(p)\<close>: the pointer itself is left as it is.\<close>

definition free_if_not_null :: "'a list option \<Rightarrow> memory \<Rightarrow> memory" where
  "free_if_not_null p mem =
     (case p of None \<Rightarrow> mem | Some _ \<Rightarrow> mem\<lparr>mem_live := mem_live mem - 1\<rparr>)"

subsection \<open>\<open>tree_sequence_alloc\<close> and \<open>tree_sequence_free\<close>\<close>

definition tree_sequence_alloc ::
  "memory \<Rightarrow> tree_sequence_t \<Rightarrow> ret \<times> tree_sequence_t \<times> memory" where
  "tree_sequence_alloc mem self =
     (let (b, mem) = malloc mem (num_breakpoints self) (0::u32);
          self = self\<lparr>breakpoints := b\<rparr>
      in if b = None then (Err MSP_ERR_NO_MEMORY, self, mem)
         else
           let (l, mem) = malloc mem (num_records self) (0::u32);
               (r, mem) = malloc mem (num_records self) (0::u32);
               (c, mem) = malloc mem (2 * num_records self) (0::u32);
               (n, mem) = malloc mem (num_records self) (0::u32);
               (t, mem) = malloc mem (num_records self) (0::f64);
               self = self\<lparr>left := l, right := r, children := c, node := n, time := t\<rparr>
           in if l = None \<or> r = None \<or> c = None \<or> n = None \<or> t = None
              then (Err MSP_ERR_NO_MEMORY, self, mem)
              else (Ret0, self, mem))"



text \<open>A store before any allocation: every column pointer is NULL.\<close>

definition fresh_store :: "tree_sequence_t" where
  "fresh_store =
     \<lparr>sample_size = 0, num_loci = 0, num_records = 0, num_breakpoints = 0,
      breakpoints = None, left = None, right = None, node = None, children = None,
      time = None\<rparr>"

subsection \<open>The record source\<close>

text \<open>
  Modelled from the spec: the simulator \<open>msp_t\<close> and its accessors
  (\<open>msp_get_num_breakpoints\<close>, \<open>msp_get_num_coalescence_records\<close>, \<open>msp_get_breakpoints\<close>,
  \<open>msp_get_coalescence_records\<close>) are declared in \<open>msprime.h\<close>, which is not among the
  sources. Following section 6 of the spec, a source exposes its sample size, its number of
  loci, its breakpoint vector and its records (in any order), and copies the two vectors
  into a buffer of the caller. The code tests the copy functions' return values, so the
  source also says what they return.
\<close>

record msp_t =
  msp_sample_size :: u32
  msp_num_loci :: u32
  msp_breakpoints :: "u32 list"
  msp_records :: "coalescence_record_t list"
  msp_breakpoints_ret :: ret
  msp_records_ret :: ret

definition msp_get_num_breakpoints :: "msp_t \<Rightarrow> nat" where
  "msp_get_num_breakpoints sim = length (msp_breakpoints sim)"

definition msp_get_num_coalescence_records :: "msp_t \<Rightarrow> nat" where
  "msp_get_num_coalescence_records sim = length (msp_records sim)"

text \<open>Copying \<open>xs\<close> to the start of the buffer \<open>p\<close>: undefined for NULL or a short buffer.\<close>

definition copy_into :: "'a list \<Rightarrow> 'a list option \<Rightarrow> 'a list option" where
  "copy_into xs p =
     (case p of None \<Rightarrow> None
      | Some buf \<Rightarrow> if length xs \<le> length buf then Some (xs @ drop (length xs) buf) else None)"

definition msp_get_breakpoints :: "msp_t \<Rightarrow> u32 list option \<Rightarrow> ret \<times> u32 list option" where
  "msp_get_breakpoints sim buf =
     (if msp_breakpoints_ret sim \<noteq> Ret0 then (msp_breakpoints_ret sim, buf)
      else case copy_into (msp_breakpoints sim) buf of
             None \<Rightarrow> (Err UNDEFINED_BEHAVIOUR, buf)
           | Some buf' \<Rightarrow> (Ret0, Some buf'))"

definition msp_get_coalescence_records ::
  "msp_t \<Rightarrow> coalescence_record_t list option \<Rightarrow> ret \<times> coalescence_record_t list option" where
  "msp_get_coalescence_records sim buf =
     (if msp_records_ret sim \<noteq> Ret0 then (msp_records_ret sim, buf)
      else case copy_into (msp_records sim) buf of
             None \<Rightarrow> (Err UNDEFINED_BEHAVIOUR, buf)
           | Some buf' \<Rightarrow> (Ret0, Some buf'))"

subsection \<open>Sorting the records\<close>

text \<open>\<open>(ca->left > cb->left) - (ca->left < cb->left)\<close>.\<close>

definition cmp_coalescence_record :: "coalescence_record_t \<Rightarrow> coalescence_record_t \<Rightarrow> int" where
  "cmp_coalescence_record ca cb =
     (if cr_left ca > cr_left cb then 1 else 0) - (if cr_left ca < cr_left cb then 1 else 0)"

text \<open>
  \<open>qsort\<close> is the C library's: it sorts the array in ascending order of the comparator, and
  the order of elements that compare equal is unspecified. The model is an insertion sort
  driven by the comparator.
\<close>

fun qsort_insert :: "('a \<Rightarrow> 'a \<Rightarrow> int) \<Rightarrow> 'a \<Rightarrow> 'a list \<Rightarrow> 'a list" where
  "qsort_insert cmp x [] = [x]"
| "qsort_insert cmp x (y # ys) =
     (if cmp x y \<le> 0 then x # y # ys else y # qsort_insert cmp x ys)"

fun qsort :: "('a \<Rightarrow> 'a \<Rightarrow> int) \<Rightarrow> 'a list \<Rightarrow> 'a list" where
  "qsort cmp [] = []"
| "qsort cmp (x # xs) = qsort_insert cmp x (qsort cmp xs)"

subsection \<open>\<open>tree_sequence_create\<close>\<close>

text \<open>
  One round of the copying loop: the six assignments for index \<open>j\<close>. The counter \<open>j\<close> is a
  \<open>uint32_t\<close>, so the indices \<open>2 * j\<close> and \<open>2 * j + 1\<close> into \<open>children\<close> are computed modulo
  \<open>2^32\<close>.
\<close>

definition scatter_record ::
  "coalescence_record_t \<Rightarrow> nat \<Rightarrow> tree_sequence_t \<Rightarrow> tree_sequence_t option" where
  "scatter_record r j self =
     (case (array_set (left self) j (cr_left r), array_set (right self) j (cr_right r),
            array_set (node self) j (cr_node r)) of
        (Some l, Some rt, Some n) \<Rightarrow>
          (case array_set (children self) ((2 * j) mod 2 ^ 32) (cr_children0 r) of
             None \<Rightarrow> None
           | Some c0 \<Rightarrow>
               (case (array_set (Some c0) ((2 * j + 1) mod 2 ^ 32) (cr_children1 r),
                      array_set (time self) j (cr_time r)) of
                  (Some c1, Some t) \<Rightarrow>
                    Some (self\<lparr>left := Some l, right := Some rt, node := Some n,
                               children := Some c1, time := Some t\<rparr>)
                | _ \<Rightarrow> None))
      | _ \<Rightarrow> None)"

text \<open>
  \<open>for (j = 0; j < self->num_records; j++)\<close> with \<open>uint32_t j\<close>: when \<open>j\<close> is \<open>2^32 - 1\<close> and
  still below \<open>num_records\<close>, the increment wraps to \<open>0\<close> and the loop starts over, for ever.
\<close>

function scatter_loop ::
  "coalescence_record_t list option \<Rightarrow> nat \<Rightarrow> tree_sequence_t \<Rightarrow> ret \<times> tree_sequence_t" where
  "scatter_loop records j self =
     (if j < num_records self then
        (case array_get records j of
           None \<Rightarrow> (Err UNDEFINED_BEHAVIOUR, self)
         | Some r \<Rightarrow>
             (case scatter_record r j self of
                None \<Rightarrow> (Err UNDEFINED_BEHAVIOUR, self)
              | Some self' \<Rightarrow>
                  if j + 1 = 2 ^ 32 then (Err NEVER_RETURNS, self')
                  else scatter_loop records (j + 1) self'))
      else (Ret0, self))"
  by pat_completeness auto

lemma scatter_record_num_records:
  "scatter_record r j self = Some self' \<Longrightarrow> num_records self' = num_records self"
  by (auto simp: scatter_record_def split: option.splits)

termination scatter_loop
  by (relation "measure (\<lambda>(records, j, self). num_records self - j)")
     (auto dest: scatter_record_num_records)

declare scatter_loop.simps [simp del]

definition zero_record :: coalescence_record_t where
  "zero_record =
     \<lparr>cr_left = 0, cr_right = 0, cr_node = 0, cr_children0 = 0, cr_children1 = 0,
      cr_time = 0\<rparr>"

text \<open>
  The value of \<open>tree_sequence_alloc\<close> is dropped. When the scratch buffer cannot be
  allocated the function leaves through \<open>out\<close> with \<open>ret\<close> as \<open>msp_get_breakpoints\<close> set it.
\<close>

definition tree_sequence_create ::
  "memory \<Rightarrow> tree_sequence_t \<Rightarrow> msp_t \<Rightarrow> ret \<times> tree_sequence_t \<times> memory" where
  "tree_sequence_create mem self sim =
     (let self = self\<lparr>num_breakpoints := msp_get_num_breakpoints sim,
                      num_records := msp_get_num_coalescence_records sim,
                      sample_size := msp_sample_size sim,
                      num_loci := msp_num_loci sim\<rparr>;
          (_, self, mem) = tree_sequence_alloc mem self;
          (ret, b) = msp_get_breakpoints sim (breakpoints self);
          self = self\<lparr>breakpoints := b\<rparr>
      in if ret \<noteq> Ret0 then (ret, self, mem)
         else
           let (records, mem) = malloc mem (num_records self) zero_record
           in if records = None then (ret, self, mem)
              else
                let (ret, records) = msp_get_coalescence_records sim records
                in if ret \<noteq> Ret0 then (ret, self, free_if_not_null records mem)
                   else
                     let records = map_option (qsort cmp_coalescence_record) records;
                         (ret, self) = scatter_loop records 0 self
                     in (ret, self, free_if_not_null records mem))"

section \<open>Bounds of \<open>tree_sequence_get_record\<close>\<close>

lemma get_record_in_range:
  assumes "store_allocated self" and "i < num_records self"
  shows "tree_sequence_get_record self i buf = (Ret0, self, stored_record self i)"
  using assms
  by (auto simp: tree_sequence_get_record_def store_allocated_def array_get_def
      stored_record_def split: option.splits)

lemma get_record_out_of_range:
  assumes "num_records self \<le> i"
  shows "tree_sequence_get_record self i buf = (Err MSP_ERR_OUT_OF_BOUNDS, self, buf)"
  using assms by (simp add: tree_sequence_get_record_def)

text \<open>
  Claim C7. For every allocated store and every index \<open>i\<close>: below \<open>num_records\<close> the call
  succeeds and hands back the \<open>i\<close>-th stored record (left, right, node, both children,
  time); at \<open>num_records\<close> and above it returns \<open>MSP_ERR_OUT_OF_BOUNDS\<close> and leaves the
  caller's buffer alone. In both cases the store comes back as it went in.
\<close>

theorem get_record_bounds:
  assumes "store_allocated self"
  shows "(i < num_records self \<longrightarrow>
            tree_sequence_get_record self i buf = (Ret0, self, stored_record self i)) \<and>
         (num_records self \<le> i \<longrightarrow>
            tree_sequence_get_record self i buf = (Err MSP_ERR_OUT_OF_BOUNDS, self, buf))"
  using get_record_in_range [OF assms] get_record_out_of_range by blast

section \<open>Sorting in \<open>tree_sequence_create\<close>\<close>

lemma mset_qsort_insert: "mset (qsort_insert cmp x xs) = add_mset x (mset xs)"
  by (induction xs) auto

lemma mset_qsort: "mset (qsort cmp xs) = mset xs"
  by (induction xs) (auto simp: mset_qsort_insert)

lemma length_qsort: "length (qsort cmp xs) = length xs"
  using mset_qsort [of cmp xs] by (metis size_mset)

lemma set_qsort_insert: "set (qsort_insert cmp x xs) = insert x (set xs)"
  by (induction xs) auto

lemma cmp_le_0: "cmp_coalescence_record a b \<le> 0 \<longleftrightarrow> cr_left a \<le> cr_left b"
  by (auto simp: cmp_coalescence_record_def)

lemma sorted_qsort_insert:
  "sorted (map cr_left xs) \<Longrightarrow> sorted (map cr_left (qsort_insert cmp_coalescence_record x xs))"
  by (induction xs) (auto simp: cmp_le_0 set_qsort_insert)

lemma sorted_qsort: "sorted (map cr_left (qsort cmp_coalescence_record xs))"
  by (induction xs) (auto simp: sorted_qsort_insert)

text \<open>The flat \<open>children\<close> column of a list of records.\<close>

fun flat_children :: "coalescence_record_t list \<Rightarrow> u32 list" where
  "flat_children [] = []"
| "flat_children (r # rs) = cr_children0 r # cr_children1 r # flat_children rs"

lemma length_flat_children: "length (flat_children rs) = 2 * length rs"
  by (induction rs) auto

lemma scatter_loop_fills:
  assumes "left self = Some l" "right self = Some r" "node self = Some n"
    "children self = Some c" "time self = Some t"
    "length l = length rs" "length r = length rs" "length n = length rs"
    "length c = 2 * length rs" "length t = length rs"
    "num_records self = length rs" "length rs \<le> 2 ^ 31" "j \<le> length rs"
  shows "scatter_loop (Some rs) j self =
     (Ret0, self\<lparr>left := Some (take j l @ map cr_left (drop j rs)),
                 right := Some (take j r @ map cr_right (drop j rs)),
                 node := Some (take j n @ map cr_node (drop j rs)),
                 children := Some (take (2 * j) c @ flat_children (drop j rs)),
                 time := Some (take j t @ map cr_time (drop j rs))\<rparr>)"
  using assms
proof (induction "length rs - j" arbitrary: j self l r n c t)
  case 0
  then show ?case by (simp add: scatter_loop.simps [of _ j])
next
  case (Suc k)
  then have j: "j < length rs" by simp
  have g: "array_get (Some rs) j = Some (rs ! j)" using j by (simp add: array_get_def)
  let ?x = "rs ! j"
  let ?self' = "self\<lparr>left := Some (l[j := cr_left ?x]), right := Some (r[j := cr_right ?x]),
       node := Some (n[j := cr_node ?x]),
       children := Some (c[2 * j := cr_children0 ?x, 2 * j + 1 := cr_children1 ?x]),
       time := Some (t[j := cr_time ?x])\<rparr>"
  have small: "2 * j + 1 < (2 :: nat) ^ 32" using j Suc.prems by simp
  then have wrap: "(2 * j) mod 2 ^ 32 = 2 * j" "(2 * j + 1) mod 2 ^ 32 = 2 * j + 1"
    by simp_all
  have s: "scatter_record ?x j self = Some ?self'"
    using Suc.prems j unfolding scatter_record_def wrap by (simp add: array_set_def)
  have ne: "j + 1 \<noteq> 2 ^ 32" using small by simp
  have step: "scatter_loop (Some rs) j self = scatter_loop (Some rs) (j + 1) ?self'"
    using j g s ne Suc.prems by (subst scatter_loop.simps) simp
  have ih: "scatter_loop (Some rs) (j + 1) ?self' =
     (Ret0, ?self'\<lparr>left := Some (take (j + 1) (l[j := cr_left ?x]) @ map cr_left (drop (j + 1) rs)),
                 right := Some (take (j + 1) (r[j := cr_right ?x]) @ map cr_right (drop (j + 1) rs)),
                 node := Some (take (j + 1) (n[j := cr_node ?x]) @ map cr_node (drop (j + 1) rs)),
                 children := Some (take (2 * (j + 1)) (c[2 * j := cr_children0 ?x, 2 * j + 1 := cr_children1 ?x]) @ flat_children (drop (j + 1) rs)),
                 time := Some (take (j + 1) (t[j := cr_time ?x]) @ map cr_time (drop (j + 1) rs))\<rparr>)"
    using Suc.hyps(2) Suc.prems j
    by (intro Suc.hyps(1)) auto
  have d: "drop j rs = ?x # drop (j + 1) rs" using j by (simp add: Cons_nth_drop_Suc)
  have tk: "\<And>(xs :: 'b list) v. j < length xs \<Longrightarrow> take (Suc j) (xs[j := v]) = take j xs @ [v]"
    by (simp add: take_Suc_conv_app_nth)
  have tk2: "take (Suc (Suc (2 * j))) (c[2 * j := cr_children0 ?x, Suc (2 * j) := cr_children1 ?x])
      = take (2 * j) c @ [cr_children0 ?x, cr_children1 ?x]"
    using Suc.prems j by (simp add: take_Suc_conv_app_nth nth_list_update)
  show ?case
    unfolding step ih using Suc.prems j by (simp add: d tk tk2)
qed


lemma flat_children_nth:
  "i < length rs \<Longrightarrow>
     flat_children rs ! (2 * i) = cr_children0 (rs ! i) \<and>
     flat_children rs ! (2 * i + 1) = cr_children1 (rs ! i)"
proof (induction rs arbitrary: i)
  case Nil
  then show ?case by simp
next
  case (Cons r rs)
  show ?case
  proof (cases i)
    case 0
    then show ?thesis by simp
  next
    case (Suc k)
    with Cons.prems have "k < length rs" by simp
    from Cons.IH [OF this] Suc show ?thesis by simp
  qed
qed

text \<open>The records of a store, in column order.\<close>

definition records_of :: "tree_sequence_t \<Rightarrow> coalescence_record_t list" where
  "records_of self = map (stored_record self) [0..<num_records self]"

lemma records_of_columns:
  assumes "left self = Some (map cr_left rs)" "right self = Some (map cr_right rs)"
    "node self = Some (map cr_node rs)" "children self = Some (flat_children rs)"
    "time self = Some (map cr_time rs)" "num_records self = length rs"
  shows "records_of self = rs"
proof (rule nth_equalityI)
  show "length (records_of self) = length rs" using assms by (simp add: records_of_def)
next
  fix i assume "i < length (records_of self)"
  then have i: "i < length rs" using assms by (simp add: records_of_def)
  then show "records_of self ! i = rs ! i"
    using assms flat_children_nth [OF i]
    by (simp add: records_of_def stored_record_def)
qed

lemma malloc_granted:
  "mem_plan mem = True # rest \<Longrightarrow>
     malloc mem n fill = (Some (replicate n fill), mem\<lparr>mem_plan := rest, mem_live := mem_live mem + 1\<rparr>)"
  by (simp add: malloc_def)

lemma alloc_granted:
  assumes "mem_plan mem = True # True # True # True # True # True # rest"
  shows "tree_sequence_alloc mem self =
     (Ret0,
      self\<lparr>breakpoints := Some (replicate (num_breakpoints self) 0),
           left := Some (replicate (num_records self) 0),
           right := Some (replicate (num_records self) 0),
           children := Some (replicate (2 * num_records self) 0),
           node := Some (replicate (num_records self) 0),
           time := Some (replicate (num_records self) 0)\<rparr>,
      mem\<lparr>mem_plan := rest, mem_live := mem_live mem + 6\<rparr>)"
  using assms by (simp add: tree_sequence_alloc_def malloc_granted)

lemma copy_into_full: "length buf = length xs \<Longrightarrow> copy_into xs (Some buf) = Some xs"
  by (simp add: copy_into_def)

lemma create_granted:
  assumes plan: "mem_plan mem = True # True # True # True # True # True # True # rest"
    and ok: "msp_breakpoints_ret sim = Ret0" "msp_records_ret sim = Ret0"
    and small: "length (msp_records sim) \<le> 2 ^ 31"
  shows "tree_sequence_create mem self sim =
     (Ret0,
      self\<lparr>num_breakpoints := length (msp_breakpoints sim),
           num_records := length (msp_records sim),
           sample_size := msp_sample_size sim, num_loci := msp_num_loci sim,
           breakpoints := Some (msp_breakpoints sim),
           left := Some (map cr_left (qsort cmp_coalescence_record (msp_records sim))),
           right := Some (map cr_right (qsort cmp_coalescence_record (msp_records sim))),
           children := Some (flat_children (qsort cmp_coalescence_record (msp_records sim))),
           node := Some (map cr_node (qsort cmp_coalescence_record (msp_records sim))),
           time := Some (map cr_time (qsort cmp_coalescence_record (msp_records sim)))\<rparr>,
      mem\<lparr>mem_plan := rest, mem_live := mem_live mem + 6\<rparr>)"
proof -
  let ?rs = "qsort cmp_coalescence_record (msp_records sim)"
  let ?n = "length (msp_records sim)"
  let ?s1 = "self\<lparr>num_breakpoints := length (msp_breakpoints sim),
           num_records := ?n,
           sample_size := msp_sample_size sim, num_loci := msp_num_loci sim\<rparr>"
  let ?s2 = "?s1\<lparr>breakpoints := Some (msp_breakpoints sim),
           left := Some (replicate ?n 0),
           right := Some (replicate ?n 0),
           children := Some (replicate (2 * ?n) 0),
           node := Some (replicate ?n 0),
           time := Some (replicate ?n 0)\<rparr>"
  have loop: "scatter_loop (Some ?rs) 0 ?s2 =
     (Ret0, ?s2\<lparr>left := Some (take 0 (replicate ?n 0) @ map cr_left (drop 0 ?rs)),
                 right := Some (take 0 (replicate ?n 0) @ map cr_right (drop 0 ?rs)),
                 node := Some (take 0 (replicate ?n 0) @ map cr_node (drop 0 ?rs)),
                 children := Some (take (2 * 0) (replicate (2 * ?n) 0) @ flat_children (drop 0 ?rs)),
                 time := Some (take 0 (replicate ?n 0) @ map cr_time (drop 0 ?rs))\<rparr>)"
    using small by (intro scatter_loop_fills) (simp_all add: length_qsort)
  show ?thesis
    using plan ok loop
    by (cases self)
       (simp add: tree_sequence_create_def alloc_granted [OF plan]
        msp_get_num_breakpoints_def msp_get_num_coalescence_records_def
        msp_get_breakpoints_def msp_get_coalescence_records_def copy_into_full
        malloc_granted free_if_not_null_def)
qed


text \<open>
  Scenario S2 of the spec (\<open>n = 4\<close>, \<open>L = 10\<close>): the source hands its five records out of
  order; the times 0.5, 0.8, 0.6, 1.0 and 1.1 are written as bit patterns.
\<close>

definition sim_S2 :: msp_t where
  "sim_S2 =
     \<lparr>msp_sample_size = 4, msp_num_loci = 10, msp_breakpoints = [0, 4, 10],
      msp_records =
        [\<lparr>cr_left = 0, cr_right = 4, cr_node = 5, cr_children0 = 1, cr_children1 = 2,
          cr_time = 0x3FE0000000000000\<rparr>,
         \<lparr>cr_left = 0, cr_right = 10, cr_node = 6, cr_children0 = 3, cr_children1 = 4,
          cr_time = 0x3FE999999999999A\<rparr>,
         \<lparr>cr_left = 4, cr_right = 10, cr_node = 7, cr_children0 = 1, cr_children1 = 2,
          cr_time = 0x3FE3333333333333\<rparr>,
         \<lparr>cr_left = 0, cr_right = 4, cr_node = 8, cr_children0 = 5, cr_children1 = 6,
          cr_time = 0x3FF0000000000000\<rparr>,
         \<lparr>cr_left = 4, cr_right = 10, cr_node = 9, cr_children0 = 7, cr_children1 = 6,
          cr_time = 0x3FF199999999999A\<rparr>],
      msp_breakpoints_ret = Ret0, msp_records_ret = Ret0\<rparr>"

definition store_S2 :: tree_sequence_t where
  "store_S2 =
     \<lparr>sample_size = 4, num_loci = 10, num_records = 5, num_breakpoints = 3,
      breakpoints = Some [0, 4, 10],
      left = Some [0, 0, 0, 4, 4],
      right = Some [4, 10, 4, 10, 10],
      node = Some [5, 6, 8, 7, 9],
      children = Some [1, 2, 3, 4, 5, 6, 1, 2, 7, 6],
      time = Some [0x3FE0000000000000, 0x3FE999999999999A, 0x3FF0000000000000,
                   0x3FE3333333333333, 0x3FF199999999999A]\<rparr>"

text \<open>Scenario S5 of the spec: a store without records, with the breakpoints \<open>0\<close> and \<open>10\<close>.\<close>

definition store_S5 :: tree_sequence_t where
  "store_S5 =
     \<lparr>sample_size = 4, num_loci = 10, num_records = 0, num_breakpoints = 2,
      breakpoints = Some [0, 10],
      left = Some [], right = Some [], node = Some [], children = Some [], time = Some []\<rparr>"

definition all_granted :: memory where
  "all_granted = \<lparr>mem_plan = replicate 7 True, mem_live = 0\<rparr>"

text \<open>
  Where the seven allocations are granted, the source's two copy functions return \<open>0\<close> and
  there are at most \<open>2^31\<close> records (so that \<open>2 * j + 1\<close> does not wrap),
  \<open>tree_sequence_create\<close> from any record source, sorted or not, returns \<open>0\<close>, the \<open>left\<close>
  column is non-decreasing (\<open>left[j] \<le> left[j+1]\<close> whenever \<open>j + 1 < num_records\<close>) and the six
  columns hold exactly a permutation of the source's records.
\<close>

theorem create_sorted_permutation:
  assumes "take 7 (mem_plan mem) = replicate 7 True"
    and "msp_breakpoints_ret sim = Ret0" and "msp_records_ret sim = Ret0"
    and "length (msp_records sim) \<le> 2 ^ 31"
  shows "\<exists>self' mem'.
           tree_sequence_create mem self sim = (Ret0, self', mem') \<and>
           store_allocated self' \<and>
           num_records self' = length (msp_records sim) \<and>
           (\<forall>j. j + 1 < num_records self' \<longrightarrow>
                the (left self') ! j \<le> the (left self') ! (j + 1)) \<and>
           mset (records_of self') = mset (msp_records sim)"
proof -
  let ?rs = "qsort cmp_coalescence_record (msp_records sim)"
  have "mem_plan mem = replicate 7 True @ drop 7 (mem_plan mem)"
    using append_take_drop_id [of 7 "mem_plan mem"] assms(1) by simp
  then have plan: "mem_plan mem =
      True # True # True # True # True # True # True # drop 7 (mem_plan mem)"
    by (simp add: numeral_eq_Suc)
  note c = create_granted [OF plan assms(2,3,4), of self]
  let ?self' = "fst (snd (tree_sequence_create mem self sim))"
  have cols: "left ?self' = Some (map cr_left ?rs)" "right ?self' = Some (map cr_right ?rs)"
    "node ?self' = Some (map cr_node ?rs)" "children ?self' = Some (flat_children ?rs)"
    "time ?self' = Some (map cr_time ?rs)" "num_records ?self' = length ?rs"
    "breakpoints ?self' = Some (msp_breakpoints sim)"
    "num_breakpoints ?self' = length (msp_breakpoints sim)"
    unfolding c by (simp_all add: length_qsort)
  have recs: "records_of ?self' = ?rs" by (rule records_of_columns [OF cols(1-6)])
  have alloc: "store_allocated ?self'"
    by (simp add: store_allocated_def cols length_qsort length_flat_children)
  have mono: "the (left ?self') ! j \<le> the (left ?self') ! (j + 1)" if "j + 1 < num_records ?self'" for j
    using that sorted_qsort [of "msp_records sim"]
    by (simp add: cols sorted_iff_nth_Suc)
  have "tree_sequence_create mem self sim = (Ret0, ?self', snd (snd (tree_sequence_create mem self sim)))"
    unfolding c by simp
  with alloc mono recs cols(6) show ?thesis
    by (metis length_qsort mset_qsort)
qed

theorem create_sorted_permutation_witness:
  "take 7 (mem_plan all_granted) = replicate 7 True \<and>
   msp_breakpoints_ret sim_S2 = Ret0 \<and> msp_records_ret sim_S2 = Ret0 \<and>
   length (msp_records sim_S2) \<le> 2 ^ 31 \<and>
   map cr_left (msp_records sim_S2) = [0, 0, 4, 0, 4] \<and>
   tree_sequence_create all_granted fresh_store sim_S2 =
     (Ret0, store_S2, \<lparr>mem_plan = [], mem_live = 6\<rparr>) \<and>
   (\<exists>self' mem'.
      tree_sequence_create all_granted fresh_store sim_S2 = (Ret0, self', mem') \<and>
      store_allocated self' \<and>
      num_records self' = length (msp_records sim_S2) \<and>
      (\<forall>j. j + 1 < num_records self' \<longrightarrow>
           the (left self') ! j \<le> the (left self') ! (j + 1)) \<and>
      mset (records_of self') = mset (msp_records sim_S2))"
proof -
  have h: "take 7 (mem_plan all_granted) = replicate 7 True"
    "msp_breakpoints_ret sim_S2 = Ret0" "msp_records_ret sim_S2 = Ret0"
    "length (msp_records sim_S2) \<le> 2 ^ 31"
    by (simp_all add: all_granted_def sim_S2_def)
  have plan: "mem_plan all_granted = True # True # True # True # True # True # True # []"
    by (simp add: all_granted_def numeral_eq_Suc)
  have v: "tree_sequence_create all_granted fresh_store sim_S2 =
     (Ret0, store_S2, \<lparr>mem_plan = [], mem_live = 6\<rparr>)"
    unfolding create_granted [OF plan h(2,3,4)]
    by (simp add: sim_S2_def store_S2_def fresh_store_def all_granted_def
        cmp_coalescence_record_def)
  show ?thesis
    using h v create_sorted_permutation [OF h, of fresh_store]
    by (simp add: sim_S2_def)
qed

text \<open>
  Beyond \<open>2^31\<close> records the indices into \<open>children\<close> wrap: the round for \<open>j = 2^31\<close> writes
  \<open>children[0]\<close> and \<open>children[1]\<close> again.
\<close>

lemma scatter_record_wraps:
  assumes "scatter_record r (2 ^ 31) self = Some self'" "children self = Some c"
  shows "children self' = Some (c[0 := cr_children0 r, 1 := cr_children1 r])"
  using assms
  by (auto simp: scatter_record_def array_set_def split: option.splits if_splits prod.splits)

text \<open>
  An allocator that grants the six columns and refuses the seventh request, the scratch
  buffer \<open>records\<close>; and the store of scenario S2 with its record columns as
  \<open>tree_sequence_alloc\<close> received them. The content of a fresh block is indeterminate in C;
  the allocator of this model hands it out filled with \<open>0\<close>.
\<close>

definition scratch_refused :: memory where
  "scratch_refused = \<lparr>mem_plan = [True, True, True, True, True, True, False], mem_live = 0\<rparr>"

definition store_S2_unwritten :: tree_sequence_t where
  "store_S2_unwritten =
     \<lparr>sample_size = 4, num_loci = 10, num_records = 5, num_breakpoints = 3,
      breakpoints = Some [0, 4, 10],
      left = Some [0, 0, 0, 0, 0], right = Some [0, 0, 0, 0, 0], node = Some [0, 0, 0, 0, 0],
      children = Some [0, 0, 0, 0, 0, 0, 0, 0, 0, 0], time = Some [0, 0, 0, 0, 0]\<rparr>"

text \<open>
  Claim C8 says that after \<open>tree_sequence_create\<close> from any record source the \<open>left\<close> column
  is non-decreasing and the six columns hold exactly a permutation of the source's records.
  The code fails it on a return of \<open>0\<close>: when \<open>malloc\<close> refuses \<open>records\<close> the function leaves
  through \<open>out\<close> with \<open>ret\<close> still \<open>0\<close> from \<open>msp_get_breakpoints\<close>, and the record columns have
  not been written. For the source of scenario S2 the store comes back with its five
  records unwritten, none of which is a record of the source.
\<close>

theorem create_without_scratch_returns_0:
  "tree_sequence_create scratch_refused fresh_store sim_S2 =
     (Ret0, store_S2_unwritten, \<lparr>mem_plan = [], mem_live = 6\<rparr>) \<and>
   records_of store_S2_unwritten = replicate 5 zero_record \<and>
   zero_record \<notin> set (msp_records sim_S2) \<and>
   mset (records_of store_S2_unwritten) \<noteq> mset (msp_records sim_S2)"
proof -
  have c: "tree_sequence_create scratch_refused fresh_store sim_S2 =
     (Ret0, store_S2_unwritten, \<lparr>mem_plan = [], mem_live = 6\<rparr>)"
    by (simp add: tree_sequence_create_def tree_sequence_alloc_def malloc_def
        scratch_refused_def fresh_store_def sim_S2_def store_S2_unwritten_def
        msp_get_num_breakpoints_def msp_get_num_coalescence_records_def
        msp_get_breakpoints_def copy_into_def numeral_eq_Suc Let_def)
  have r: "records_of store_S2_unwritten = replicate 5 zero_record"
    by (simp add: records_of_def stored_record_def store_S2_unwritten_def zero_record_def
        numeral_eq_Suc upt_rec)
  have z: "zero_record \<notin> set (msp_records sim_S2)"
    by (simp add: sim_S2_def zero_record_def)
  have "zero_record \<in> set (records_of store_S2_unwritten)" by (simp add: r)
  then have "zero_record \<in># mset (records_of store_S2_unwritten)" by simp
  moreover have "\<not> zero_record \<in># mset (msp_records sim_S2)" using z by simp
  ultimately have "mset (records_of store_S2_unwritten) \<noteq> mset (msp_records sim_S2)"
    by metis
  with c r z show ?thesis by simp
qed

section \<open>Allocation of the columns\<close>

theorem get_record_bounds_witness:
  "store_allocated store_S2 \<and>
   tree_sequence_get_record store_S2 0 zero_record =
     (Ret0, store_S2,
      \<lparr>cr_left = 0, cr_right = 4, cr_node = 5, cr_children0 = 1, cr_children1 = 2,
       cr_time = 0x3FE0000000000000\<rparr>) \<and>
   tree_sequence_get_record store_S2 5 zero_record =
     (Err MSP_ERR_OUT_OF_BOUNDS, store_S2, zero_record)"
proof -
  have a: "store_allocated store_S2"
    by (simp add: store_allocated_def store_S2_def)
  have "stored_record store_S2 0 =
      \<lparr>cr_left = 0, cr_right = 4, cr_node = 5, cr_children0 = 1, cr_children1 = 2,
       cr_time = 0x3FE0000000000000\<rparr>"
    by (simp add: stored_record_def store_S2_def)
  then show ?thesis
    using a get_record_bounds [OF a, of 0 zero_record] get_record_bounds [OF a, of 5 zero_record]
    by (simp add: store_S2_def)
qed

text \<open>Whether the next allocation is granted, and the allocator after it.\<close>

definition granted :: "memory \<Rightarrow> bool" where
  "granted mem = (case mem_plan mem of [] \<Rightarrow> False | ok # _ \<Rightarrow> ok)"

definition after_malloc :: "memory \<Rightarrow> memory" where
  "after_malloc mem =
     mem\<lparr>mem_plan := tl (mem_plan mem),
         mem_live := mem_live mem + (if granted mem then 1 else 0)\<rparr>"

lemma malloc_eq:
  "malloc mem n fill = (if granted mem then Some (replicate n fill) else None, after_malloc mem)"
  by (cases mem) (simp add: malloc_def granted_def after_malloc_def split: list.splits)

lemma mem_live_after_malloc:
  "mem_live (after_malloc mem) = mem_live mem + (if granted mem then 1 else 0)"
  by (simp add: after_malloc_def)












section \<open>The container file\<close>

text \<open>
  The HDF5 library is not part of the repository. Its files are modelled by their
  contents: groups, attributes (found by the path of the object that carries them and
  their name) and datasets (found by path). A dataset records its extent, the chunk
  shape and the filters it was created with, and its elements, which are \<open>uint32\<close> or
  \<open>double\<close> values; byte order and the filters are the library's business and invisible
  to a reader. A library call fails in the model exactly where the contents make it fail
  (an object that is missing or already there, a chunk dimension of zero, a read whose memory
  type is of another class than the stored one); failures of the medium are not modelled.
  A file system maps names to files.
\<close>

datatype h5_payload = H5_U32 "u32 list" | H5_F64 "f64 list"

record h5_attribute =
  attr_dims :: "nat list"
  attr_data :: "u32 list"

record h5_dataset =
  ds_dims :: "nat list"
  ds_chunk :: "nat list"
  ds_shuffle :: bool
  ds_deflate :: "nat option"
  ds_fletcher32 :: bool
  ds_data :: h5_payload

record h5_file =
  h5_groups :: "string list"
  h5_attributes :: "string \<times> string \<rightharpoonup> h5_attribute"
  h5_datasets :: "string \<rightharpoonup> h5_dataset"

type_synonym file_system = "string \<rightharpoonup> h5_file"










text \<open>
  \<open>H5Aread\<close> into a \<open>uint32_t\<close>: the attribute's elements are written to the destination,
  which has room for one.
\<close>

definition H5Aread :: "h5_attribute \<Rightarrow> u32 \<Rightarrow> u32 option" where
  "H5Aread a dest = (case attr_data a of [] \<Rightarrow> Some dest | [v] \<Rightarrow> Some v | _ \<Rightarrow> None)"

text \<open>
  \<open>H5Dread\<close> of the whole dataset into a buffer: \<open>Inl\<close> is the library's failure status,
  \<open>Inr None\<close> a write outside the buffer or through NULL.
\<close>

definition H5Dread_u32 :: "h5_dataset \<Rightarrow> u32 list option \<Rightarrow> unit + u32 list option" where
  "H5Dread_u32 d dest =
     (case ds_data d of H5_U32 xs \<Rightarrow> Inr (copy_into xs dest) | H5_F64 _ \<Rightarrow> Inl ())"

definition H5Dread_f64 :: "h5_dataset \<Rightarrow> f64 list option \<Rightarrow> unit + f64 list option" where
  "H5Dread_f64 d dest =
     (case ds_data d of H5_F64 xs \<Rightarrow> Inr (copy_into xs dest) | H5_U32 _ \<Rightarrow> Inl ())"


subsection \<open>Writing: \<open>tree_sequence_dump\<close>\<close>








subsection \<open>Reading: \<open>tree_sequence_load\<close>\<close>

text \<open>
  One round of the loop of \<open>tree_sequence_read_hdf5_metadata\<close>: the attribute is opened by
  name, its rank is compared with \<open>1\<close>, and its value is read into the destination.
\<close>

definition read_attribute :: "h5_file \<Rightarrow> string \<Rightarrow> string \<Rightarrow> u32 \<Rightarrow> ret \<times> u32" where
  "read_attribute f prefix name dest =
     (case h5_attributes f (prefix, name) of
        None \<Rightarrow> (Err MSP_ERR_HDF5, dest)
      | Some a \<Rightarrow>
          if length (attr_dims a) \<noteq> 1 then (Err MSP_ERR_FILE_FORMAT, dest)
          else case H5Aread a dest of
                 None \<Rightarrow> (Err UNDEFINED_BEHAVIOUR, dest)
               | Some v \<Rightarrow> (Ret0, v))"

text \<open>
  The three rounds, with destinations \<open>&version\<close> (a local variable that nothing reads
  afterwards), \<open>&self->sample_size\<close> and \<open>&self->num_loci\<close>.
\<close>

definition tree_sequence_read_hdf5_metadata ::
  "tree_sequence_t \<Rightarrow> h5_file \<Rightarrow> ret \<times> tree_sequence_t" where
  "tree_sequence_read_hdf5_metadata self f =
     (case read_attribute f ''/'' ''format_version'' 0 of
        (Ret0, version) \<Rightarrow>
          (case read_attribute f ''/parameters'' ''sample_size'' (sample_size self) of
             (Ret0, v) \<Rightarrow>
               (let self = self\<lparr>sample_size := v\<rparr>
                in case read_attribute f ''/parameters'' ''num_loci'' (num_loci self) of
                     (Ret0, v) \<Rightarrow> (Ret0, self\<lparr>num_loci := v\<rparr>)
                   | (e, _) \<Rightarrow> (e, self))
           | (e, _) \<Rightarrow> (e, self))
      | (e, _) \<Rightarrow> (e, self))"

text \<open>The loop of \<open>tree_sequence_check_hdf5_dimensions\<close> over its five fields.\<close>

fun check_fields :: "tree_sequence_t \<Rightarrow> h5_file \<Rightarrow> (string \<times> nat) list \<Rightarrow> ret" where
  "check_fields self f [] = Ret0"
| "check_fields self f ((name, dimensions) # others) =
     (case h5_datasets f name of
        None \<Rightarrow> Err MSP_ERR_HDF5
      | Some d \<Rightarrow>
          if length (ds_dims d) \<noteq> dimensions then Err MSP_ERR_FILE_FORMAT
          else if ds_dims d ! 0 \<noteq> num_records self then Err MSP_ERR_FILE_FORMAT
          else check_fields self f others)"

definition tree_sequence_check_hdf5_dimensions :: "tree_sequence_t \<Rightarrow> h5_file \<Rightarrow> ret" where
  "tree_sequence_check_hdf5_dimensions self f =
     check_fields self f
       [(''/records/left'', 1), (''/records/right'', 1), (''/records/node'', 1),
        (''/records/children'', 2), (''/records/time'', 1)]"

definition tree_sequence_read_hdf5_dimensions ::
  "memory \<Rightarrow> tree_sequence_t \<Rightarrow> h5_file \<Rightarrow> ret \<times> tree_sequence_t \<times> memory" where
  "tree_sequence_read_hdf5_dimensions mem self f =
     (case h5_datasets f ''/breakpoints'' of
        None \<Rightarrow> (Err MSP_ERR_HDF5, self, mem)
      | Some d \<Rightarrow>
          if length (ds_dims d) \<noteq> 1 then (Err MSP_ERR_FILE_FORMAT, self, mem)
          else
            let self = self\<lparr>num_breakpoints := ds_dims d ! 0\<rparr>;
                (b, mem) = malloc mem (num_breakpoints self) (0::u32);
                self = self\<lparr>breakpoints := b\<rparr>
            in if b = None then (Err MSP_ERR_NO_MEMORY, self, mem)
               else
                 (case h5_datasets f ''/records/left'' of
                    None \<Rightarrow> (Err MSP_ERR_HDF5, self, mem)
                  | Some d \<Rightarrow>
                      if length (ds_dims d) \<noteq> 1 then (Err MSP_ERR_FILE_FORMAT, self, mem)
                      else
                        let self = self\<lparr>num_records := ds_dims d ! 0\<rparr>;
                            (l, mem) = malloc mem (num_records self) (0::u32);
                            (r, mem) = malloc mem (num_records self) (0::u32);
                            (n, mem) = malloc mem (num_records self) (0::u32);
                            (c, mem) = malloc mem (2 * num_records self) (0::u32);
                            (t, mem) = malloc mem (num_records self) (0::f64);
                            self = self\<lparr>left := l, right := r, node := n, children := c,
                                        time := t\<rparr>
                        in if l = None \<or> r = None \<or> n = None \<or> c = None \<or> t = None
                           then (Err MSP_ERR_NO_MEMORY, self, mem)
                           else (tree_sequence_check_hdf5_dimensions self f, self, mem)))"

text \<open>
  One round of the loop of \<open>tree_sequence_read_hdf5_data\<close>, for a \<open>uint32\<close> and for a
  \<open>double\<close> destination.
\<close>

definition read_field_u32 ::
  "h5_file \<Rightarrow> string \<Rightarrow> u32 list option \<Rightarrow> ret \<times> u32 list option" where
  "read_field_u32 f name dest =
     (case h5_datasets f name of
        None \<Rightarrow> (Err MSP_ERR_HDF5, dest)
      | Some d \<Rightarrow>
          (case H5Dread_u32 d dest of
             Inl _ \<Rightarrow> (Err MSP_ERR_HDF5, dest)
           | Inr None \<Rightarrow> (Err UNDEFINED_BEHAVIOUR, dest)
           | Inr (Some xs) \<Rightarrow> (Ret0, Some xs)))"

definition read_field_f64 ::
  "h5_file \<Rightarrow> string \<Rightarrow> f64 list option \<Rightarrow> ret \<times> f64 list option" where
  "read_field_f64 f name dest =
     (case h5_datasets f name of
        None \<Rightarrow> (Err MSP_ERR_HDF5, dest)
      | Some d \<Rightarrow>
          (case H5Dread_f64 d dest of
             Inl _ \<Rightarrow> (Err MSP_ERR_HDF5, dest)
           | Inr None \<Rightarrow> (Err UNDEFINED_BEHAVIOUR, dest)
           | Inr (Some xs) \<Rightarrow> (Ret0, Some xs)))"

definition tree_sequence_read_hdf5_data ::
  "tree_sequence_t \<Rightarrow> h5_file \<Rightarrow> ret \<times> tree_sequence_t" where
  "tree_sequence_read_hdf5_data self f =
     (case read_field_u32 f ''/breakpoints'' (breakpoints self) of
        (Ret0, b) \<Rightarrow>
          (let self = self\<lparr>breakpoints := b\<rparr>
           in case read_field_u32 f ''/records/left'' (left self) of
             (Ret0, l) \<Rightarrow>
               (let self = self\<lparr>left := l\<rparr>
                in case read_field_u32 f ''/records/right'' (right self) of
                  (Ret0, r) \<Rightarrow>
                    (let self = self\<lparr>right := r\<rparr>
                     in case read_field_u32 f ''/records/node'' (node self) of
                       (Ret0, n) \<Rightarrow>
                         (let self = self\<lparr>node := n\<rparr>
                          in case read_field_u32 f ''/records/children'' (children self) of
                            (Ret0, c) \<Rightarrow>
                              (let self = self\<lparr>children := c\<rparr>
                               in case read_field_f64 f ''/records/time'' (time self) of
                                 (Ret0, t) \<Rightarrow> (Ret0, self\<lparr>time := t\<rparr>)
                               | (e, _) \<Rightarrow> (e, self))
                          | (e, _) \<Rightarrow> (e, self))
                     | (e, _) \<Rightarrow> (e, self))
                | (e, _) \<Rightarrow> (e, self))
           | (e, _) \<Rightarrow> (e, self))
      | (e, _) \<Rightarrow> (e, self))"

text \<open>
  \<open>tree_sequence_load\<close>. The value of \<open>tree_sequence_read_hdf5_metadata\<close> goes to \<open>status\<close>,
  so on its failure \<open>ret\<close> still holds \<open>MSP_ERR_GENERIC\<close>.
\<close>

definition is_negative :: "ret \<Rightarrow> bool" where
  "is_negative r = (case r of Err _ \<Rightarrow> True | _ \<Rightarrow> False)"

definition tree_sequence_load ::
  "memory \<Rightarrow> tree_sequence_t \<Rightarrow> file_system \<Rightarrow> string \<Rightarrow> ret \<times> tree_sequence_t \<times> memory" where
  "tree_sequence_load mem self fs filename =
     (case fs filename of
        None \<Rightarrow> (Err MSP_ERR_HDF5, self, mem)
      | Some f \<Rightarrow>
          (case tree_sequence_read_hdf5_metadata self f of (status, self) \<Rightarrow>
             if is_negative status
             then (if status = Err UNDEFINED_BEHAVIOUR then status else Err MSP_ERR_GENERIC,
                   self, mem)
             else
               (case tree_sequence_read_hdf5_dimensions mem self f of (ret, self, mem) \<Rightarrow>
                  if ret \<noteq> Ret0 then (ret, self, mem)
                  else
                    (case tree_sequence_read_hdf5_data self f of (ret, self) \<Rightarrow>
                       if ret \<noteq> Ret0 then (ret, self, mem)
                       else (Ret0, self, mem)))))"

text \<open>The file \<open>tree_sequence_dump\<close> writes for an allocated store.\<close>

definition dumped_dataset :: "bool \<Rightarrow> nat list \<Rightarrow> h5_payload \<Rightarrow> h5_dataset" where
  "dumped_dataset compress dims data =
     \<lparr>ds_dims = dims, ds_chunk = dims, ds_shuffle = compress,
      ds_deflate = (if compress then Some 9 else None), ds_fletcher32 = True,
      ds_data = data\<rparr>"

definition dumped_file :: "u32 \<Rightarrow> bool \<Rightarrow> tree_sequence_t \<Rightarrow> h5_file" where
  "dumped_file version compress self =
     \<lparr>h5_groups = [''/records'', ''/parameters''],
      h5_attributes =
        [(''/'', ''format_version'') \<mapsto> \<lparr>attr_dims = [1], attr_data = [version]\<rparr>,
         (''/parameters'', ''sample_size'') \<mapsto> \<lparr>attr_dims = [1], attr_data = [sample_size self]\<rparr>,
         (''/parameters'', ''num_loci'') \<mapsto> \<lparr>attr_dims = [1], attr_data = [num_loci self]\<rparr>],
      h5_datasets =
        [''/breakpoints'' \<mapsto>
           dumped_dataset compress [num_breakpoints self] (H5_U32 (the (breakpoints self))),
         ''/records/left'' \<mapsto>
           dumped_dataset compress [num_records self] (H5_U32 (the (left self))),
         ''/records/right'' \<mapsto>
           dumped_dataset compress [num_records self] (H5_U32 (the (right self))),
         ''/records/node'' \<mapsto>
           dumped_dataset compress [num_records self] (H5_U32 (the (node self))),
         ''/records/children'' \<mapsto>
           dumped_dataset compress [num_records self, 2] (H5_U32 (the (children self))),
         ''/records/time'' \<mapsto>
           dumped_dataset compress [num_records self] (H5_F64 (the (time self)))]\<rparr>"

lemma store_allocatedE:
  assumes "store_allocated self"
  obtains b l r n c t where
    "breakpoints self = Some b" "left self = Some l" "right self = Some r"
    "node self = Some n" "children self = Some c" "time self = Some t"
    "length b = num_breakpoints self" "length l = num_records self"
    "length r = num_records self" "length n = num_records self"
    "length c = 2 * num_records self" "length t = num_records self"
  using assms by (auto simp: store_allocated_def split: option.splits)






lemma read_metadata_dumped:
  "tree_sequence_read_hdf5_metadata self0 (dumped_file version compress self) =
     (Ret0, self0\<lparr>sample_size := sample_size self, num_loci := num_loci self\<rparr>)"
  by (simp add: tree_sequence_read_hdf5_metadata_def read_attribute_def dumped_file_def
      H5Aread_def)

lemma check_dimensions_dumped:
  "num_records self0 = num_records self \<Longrightarrow>
   tree_sequence_check_hdf5_dimensions self0 (dumped_file version compress self) = Ret0"
  by (simp add: tree_sequence_check_hdf5_dimensions_def dumped_file_def dumped_dataset_def)

lemma read_dimensions_dumped:
  assumes "mem_plan mem = True # True # True # True # True # True # rest"
  shows "tree_sequence_read_hdf5_dimensions mem self0 (dumped_file version compress self) =
     (Ret0,
      self0\<lparr>num_breakpoints := num_breakpoints self, num_records := num_records self,
            breakpoints := Some (replicate (num_breakpoints self) 0),
            left := Some (replicate (num_records self) 0),
            right := Some (replicate (num_records self) 0),
            node := Some (replicate (num_records self) 0),
            children := Some (replicate (2 * num_records self) 0),
            time := Some (replicate (num_records self) 0)\<rparr>,
      mem\<lparr>mem_plan := rest, mem_live := mem_live mem + 6\<rparr>)"
proof -
  have d: "h5_datasets (dumped_file version compress self) ''/breakpoints'' =
      Some (dumped_dataset compress [num_breakpoints self] (H5_U32 (the (breakpoints self))))"
    "h5_datasets (dumped_file version compress self) ''/records/left'' =
      Some (dumped_dataset compress [num_records self] (H5_U32 (the (left self))))"
    by (simp_all add: dumped_file_def)
  show ?thesis
    using assms
    by (cases self0)
       (simp add: tree_sequence_read_hdf5_dimensions_def d dumped_dataset_def malloc_granted
          check_dimensions_dumped)
qed

lemma read_data_dumped:
  assumes "store_allocated self"
    and "breakpoints self0 = Some b" "length b = num_breakpoints self"
    and "left self0 = Some l" "length l = num_records self"
    and "right self0 = Some r" "length r = num_records self"
    and "node self0 = Some n" "length n = num_records self"
    and "children self0 = Some c" "length c = 2 * num_records self"
    and "time self0 = Some t" "length t = num_records self"
  shows "tree_sequence_read_hdf5_data self0 (dumped_file version compress self) =
     (Ret0, self0\<lparr>breakpoints := breakpoints self, left := left self, right := right self,
                  node := node self, children := children self, time := time self\<rparr>)"
  using assms(1)
proof (rule store_allocatedE)
  fix b' l' r' n' c' t'
  assume a: "breakpoints self = Some b'" "left self = Some l'" "right self = Some r'"
    "node self = Some n'" "children self = Some c'" "time self = Some t'"
    "length b' = num_breakpoints self" "length l' = num_records self"
    "length r' = num_records self" "length n' = num_records self"
    "length c' = 2 * num_records self" "length t' = num_records self"
  show ?thesis
    using assms(2-) a
    by (simp add: tree_sequence_read_hdf5_data_def read_field_u32_def read_field_f64_def
        dumped_file_def dumped_dataset_def H5Dread_u32_def H5Dread_f64_def copy_into_full)
qed

lemma load_dumped:
  assumes "store_allocated self"
    and "mem_plan mem = True # True # True # True # True # True # rest"
  shows "tree_sequence_load mem self0 (fs(filename \<mapsto> dumped_file version compress self)) filename =
     (Ret0,
      self0\<lparr>sample_size := sample_size self, num_loci := num_loci self,
            num_records := num_records self, num_breakpoints := num_breakpoints self,
            breakpoints := breakpoints self, left := left self, right := right self,
            node := node self, children := children self, time := time self\<rparr>,
      mem\<lparr>mem_plan := rest, mem_live := mem_live mem + 6\<rparr>)"
  by (cases self0)
     (simp add: tree_sequence_load_def read_metadata_dumped is_negative_def
        read_dimensions_dumped [OF assms(2)] read_data_dumped [OF assms(1)])





text \<open>
  Claim C4 asks \<open>tree_sequence_load\<close> to refuse a file whose \<open>format_version\<close> exceeds
  \<open>MSP_FILE_FORMAT_VERSION\<close>. The code reads the attribute into the local \<open>version\<close> and
  never looks at it: whatever value \<open>v\<close> the attribute holds, the file written for the
  store of scenario S2 is loaded.
\<close>

theorem load_ignores_format_version:
  "tree_sequence_load all_granted fresh_store
     [''ts.hdf5'' \<mapsto> dumped_file v False store_S2] ''ts.hdf5'' =
   (Ret0, store_S2, \<lparr>mem_plan = [True], mem_live = 6\<rparr>)"
proof -
  have a: "store_allocated store_S2"
    by (simp add: store_allocated_def store_S2_def)
  have p: "mem_plan all_granted = True # True # True # True # True # True # [True]"
    by (simp add: all_granted_def numeral_eq_Suc)
  show ?thesis
    unfolding load_dumped [OF a p]
    by (simp add: fresh_store_def store_S2_def all_granted_def)
qed

section \<open>What a failed \<open>tree_sequence_load\<close> leaves behind\<close>

definition load_codes :: "ret set" where
  "load_codes = {Err MSP_ERR_HDF5, Err MSP_ERR_FILE_FORMAT, Err UNDEFINED_BEHAVIOUR}"



lemma load_codes_not_Ret0 [simp]: "e \<in> load_codes \<Longrightarrow> e \<noteq> Ret0"
  by (auto simp: load_codes_def)

lemma load_codes_case:
  "e \<in> load_codes \<Longrightarrow> (case e of Ret0 \<Rightarrow> a | _ \<Rightarrow> b) = b"
  by (auto simp: load_codes_def)


























section \<open>The tree diff iterator\<close>

subsection \<open>Arena heap\<close>

text \<open>
  Modelled from the spec: \<open>object_heap.h\<close> and its implementation are not among the sources.
  Section 4.A describes a pool of fixed capacity with \<open>alloc\<close>, \<open>free\<close> and \<open>empty\<close>, where
  freed objects return to the pool and allocation from an empty pool yields nothing; the
  iterator never lets it grow. The model keeps the number of objects at hand (\<open>top\<close>) and
  counts allocations and frees, which is what the arena reports. The pool's storage is one
  block of memory.
\<close>

record object_heap_t =
  oh_top :: nat
  oh_allocs :: nat
  oh_frees :: nat

definition object_heap_init :: "memory \<Rightarrow> nat \<Rightarrow> ret \<times> object_heap_t \<times> memory" where
  "object_heap_init mem n_blocks =
     (case malloc mem n_blocks () of
        (None, mem') \<Rightarrow> (Err MSP_ERR_NO_MEMORY, \<lparr>oh_top = 0, oh_allocs = 0, oh_frees = 0\<rparr>, mem')
      | (Some _, mem') \<Rightarrow> (Ret0, \<lparr>oh_top = n_blocks, oh_allocs = 0, oh_frees = 0\<rparr>, mem'))"

definition object_heap_empty :: "object_heap_t \<Rightarrow> bool" where
  "object_heap_empty h \<longleftrightarrow> oh_top h = 0"

definition object_heap_alloc_object :: "object_heap_t \<Rightarrow> object_heap_t option" where
  "object_heap_alloc_object h =
     (if oh_top h = 0 then None
      else Some (h\<lparr>oh_top := oh_top h - 1, oh_allocs := oh_allocs h + 1\<rparr>))"

definition object_heap_free_object :: "object_heap_t \<Rightarrow> object_heap_t" where
  "object_heap_free_object h = h\<lparr>oh_top := oh_top h + 1, oh_frees := oh_frees h + 1\<rparr>"

text \<open>\<open>object_heap_free\<close> gives the pool's storage back.\<close>

definition object_heap_free :: "memory \<Rightarrow> memory" where
  "object_heap_free mem = mem\<lparr>mem_live := mem_live mem - 1\<rparr>"

subsection \<open>Ordered map\<close>

text \<open>
  A tree node of the iterator; its \<open>next\<close> link is the order of the list it stands in.
\<close>

record tree_node_t =
  tn_id :: u32
  tn_children0 :: u32
  tn_children1 :: u32
  tn_time :: f64

text \<open>
  A \<open>tree_node_list_t\<close> is its key and its nodes from \<open>head\<close> to \<open>tail\<close>; \<open>head == NULL\<close> is
  the empty list.
\<close>

type_synonym tree_node_list_t = "u32 \<times> tree_node_t list"

text \<open>\<open>(ia->key > ib->key) - (ia->key < ib->key)\<close>.\<close>

definition cmp_tree_node_list :: "tree_node_list_t \<Rightarrow> tree_node_list_t \<Rightarrow> int" where
  "cmp_tree_node_list ia ib =
     (if fst ia > fst ib then 1 else 0) - (if fst ia < fst ib then 1 else 0)"

text \<open>
  Modelled from the spec: the AVL tree (\<open>avl.h\<close>) is not among the sources. Section 4.B
  asks for a search tree with strict order by key that rejects duplicates and offers
  \<open>search\<close>, \<open>insert\<close>, \<open>unlink\<close> and the neighbours of a node. The model is the list of the
  tree's items in ascending order of the comparator; the balancing is not visible through
  the interface.
\<close>

type_synonym avl_tree_t = "tree_node_list_t list"

fun avl_search :: "avl_tree_t \<Rightarrow> tree_node_list_t \<Rightarrow> tree_node_list_t option" where
  "avl_search [] item = None"
| "avl_search (x # t) item =
     (if cmp_tree_node_list item x = 0 then Some x else avl_search t item)"

text \<open>\<open>avl_insert_node\<close>: \<open>None\<close> (NULL) when an item with an equal key is in the tree.\<close>

fun avl_insert_node :: "avl_tree_t \<Rightarrow> tree_node_list_t \<Rightarrow> avl_tree_t option" where
  "avl_insert_node [] item = Some [item]"
| "avl_insert_node (x # t) item =
     (if cmp_tree_node_list item x = 0 then None
      else if cmp_tree_node_list item x < 0 then Some (item # x # t)
      else map_option ((#) x) (avl_insert_node t item))"

text \<open>\<open>node->prev\<close> of the node with the given key: the item just before it.\<close>

fun avl_prev :: "avl_tree_t \<Rightarrow> u32 \<Rightarrow> tree_node_list_t option" where
  "avl_prev [] key = None"
| "avl_prev [x] key = None"
| "avl_prev (x # y # t) key = (if fst y = key then Some x else avl_prev (y # t) key)"

definition avl_unlink_node :: "avl_tree_t \<Rightarrow> u32 \<Rightarrow> avl_tree_t" where
  "avl_unlink_node t key = filter (\<lambda>x. fst x \<noteq> key) t"

text \<open>Appending a node to the list with the given key, through its \<open>tail\<close>.\<close>

definition list_append :: "avl_tree_t \<Rightarrow> u32 \<Rightarrow> tree_node_t \<Rightarrow> avl_tree_t" where
  "list_append t key n = map (\<lambda>x. if fst x = key then (fst x, snd x @ [n]) else x) t"

subsection \<open>State of the iterator\<close>

record tree_diff_iterator_t =
  tree_sequence :: tree_sequence_t
  flags :: "32 word"
  current_left :: u32
  next_record_index :: nat
  current_breakpoint_index :: nat
  next_breakpoint :: u32
  it_num_records :: nat
  nodes_in :: "tree_node_t list"
  active_nodes :: avl_tree_t
  tree_node_heap :: object_heap_t
  tree_node_list_heap :: object_heap_t
  avl_node_heap :: object_heap_t

definition tree_sequence_get_num_coalescence_records :: "tree_sequence_t \<Rightarrow> nat" where
  "tree_sequence_get_num_coalescence_records self = num_records self"

text \<open>
  \<open>tree_diff_iterator_alloc\<close>. The capacity \<open>3 * n\<close> is computed in \<open>uint32_t\<close>. The fields are
  set before the pools are created, so they are set on failure too.
\<close>

definition tree_diff_iterator_alloc ::
  "memory \<Rightarrow> tree_diff_iterator_t \<Rightarrow> tree_sequence_t \<Rightarrow> 32 word
     \<Rightarrow> ret \<times> tree_diff_iterator_t \<times> memory" where
  "tree_diff_iterator_alloc mem self ts flgs =
     (let n = sample_size ts;
          self = self\<lparr>tree_sequence := ts, flags := flgs, current_left := 0,
                      next_record_index := 0, current_breakpoint_index := 0,
                      next_breakpoint := 0,
                      it_num_records := tree_sequence_get_num_coalescence_records ts\<rparr>
      in case object_heap_init mem (unat (3 * n)) of (ret, h, mem) \<Rightarrow>
           let self = self\<lparr>tree_node_heap := h\<rparr>
           in if ret \<noteq> Ret0 then (ret, self, mem)
              else case object_heap_init mem (unat n) of (ret, h, mem) \<Rightarrow>
                let self = self\<lparr>tree_node_list_heap := h\<rparr>
                in if ret \<noteq> Ret0 then (ret, self, mem)
                   else case object_heap_init mem (unat n) of (ret, h, mem) \<Rightarrow>
                     let self = self\<lparr>avl_node_heap := h\<rparr>
                     in if ret \<noteq> Ret0 then (ret, self, mem)
                        else (Ret0, self\<lparr>active_nodes := [], nodes_in := []\<rparr>, mem))"

definition tree_diff_iterator_free :: "memory \<Rightarrow> tree_diff_iterator_t \<Rightarrow> ret \<times> memory" where
  "tree_diff_iterator_free mem self =
     (Ret0, object_heap_free (object_heap_free (object_heap_free mem)))"


subsection \<open>Allocation helpers\<close>

text \<open>
  What \<open>tree_diff_iterator_alloc_avl_node\<close> returns: NULL, a node whose item is a fresh empty
  list with the given key, or, when the AVL pool had an object but the list pool is empty,
  a node that was never initialised.
\<close>

datatype avl_alloc = Avl_NULL | Avl_node tree_node_list_t | Avl_uninitialised

definition tree_diff_iterator_alloc_avl_node ::
  "tree_diff_iterator_t \<Rightarrow> u32 \<Rightarrow> avl_alloc \<times> tree_diff_iterator_t" where
  "tree_diff_iterator_alloc_avl_node self key =
     (if object_heap_empty (avl_node_heap self) then (Avl_NULL, self)
      else case object_heap_alloc_object (avl_node_heap self) of
             None \<Rightarrow> (Avl_NULL, self)
           | Some h \<Rightarrow>
               let self = self\<lparr>avl_node_heap := h\<rparr>
               in if object_heap_empty (tree_node_list_heap self) then (Avl_uninitialised, self)
                  else case object_heap_alloc_object (tree_node_list_heap self) of
                         None \<Rightarrow> (Avl_uninitialised, self)
                       | Some h' \<Rightarrow>
                           (Avl_node (key, []), self\<lparr>tree_node_list_heap := h'\<rparr>))"

definition tree_diff_iterator_free_avl_node :: "tree_diff_iterator_t \<Rightarrow> tree_diff_iterator_t" where
  "tree_diff_iterator_free_avl_node self =
     self\<lparr>tree_node_list_heap := object_heap_free_object (tree_node_list_heap self),
          avl_node_heap := object_heap_free_object (avl_node_heap self)\<rparr>"

definition tree_diff_iterator_alloc_tree_node ::
  "tree_diff_iterator_t \<Rightarrow> coalescence_record_t \<Rightarrow> tree_node_t option \<times> tree_diff_iterator_t" where
  "tree_diff_iterator_alloc_tree_node self record =
     (if object_heap_empty (tree_node_heap self) then (None, self)
      else case object_heap_alloc_object (tree_node_heap self) of
             None \<Rightarrow> (None, self)
           | Some h \<Rightarrow>
               (Some \<lparr>tn_id = cr_node record, tn_children0 = cr_children0 record,
                      tn_children1 = cr_children1 record, tn_time = cr_time record\<rparr>,
                self\<lparr>tree_node_heap := h\<rparr>))"

definition tree_diff_iterator_free_tree_node :: "tree_diff_iterator_t \<Rightarrow> tree_diff_iterator_t" where
  "tree_diff_iterator_free_tree_node self =
     self\<lparr>tree_node_heap := object_heap_free_object (tree_node_heap self)\<rparr>"

text \<open>\<open>while (tree_node != NULL) { tmp = tree_node->next; free(tree_node); tree_node = tmp; }\<close>\<close>

fun free_tree_nodes :: "tree_diff_iterator_t \<Rightarrow> tree_node_t list \<Rightarrow> tree_diff_iterator_t" where
  "free_tree_nodes self [] = self"
| "free_tree_nodes self (tree_node # tmp) =
     free_tree_nodes (tree_diff_iterator_free_tree_node self) tmp"

subsection \<open>\<open>tree_diff_iterator_process_record\<close>\<close>

definition tree_diff_iterator_process_record ::
  "tree_diff_iterator_t \<Rightarrow> coalescence_record_t \<Rightarrow> ret \<times> tree_diff_iterator_t" where
  "tree_diff_iterator_process_record self record =
     (case tree_diff_iterator_alloc_tree_node self record of
        (None, self) \<Rightarrow> (Err MSP_ERR_NO_MEMORY, self)
      | (Some tree_node, self) \<Rightarrow>
          let self = self\<lparr>nodes_in := nodes_in self @ [tree_node]\<rparr>;
              search = (cr_right record, [])
          in case (case avl_search (active_nodes self) search of
                     Some found \<Rightarrow> (Ret0, self)
                   | None \<Rightarrow>
                       (case tree_diff_iterator_alloc_avl_node self (cr_right record) of
                          (Avl_NULL, self) \<Rightarrow> (Err MSP_ERR_NO_MEMORY, self)
                        | (Avl_uninitialised, self) \<Rightarrow> (Err UNDEFINED_BEHAVIOUR, self)
                        | (Avl_node item, self) \<Rightarrow>
                            (case avl_insert_node (active_nodes self) item of
                               None \<Rightarrow> (Err ASSERTION_FAILED, self)
                             | Some t \<Rightarrow> (Ret0, self\<lparr>active_nodes := t\<rparr>)))) of
               (Ret0, self) \<Rightarrow>
                 (case tree_diff_iterator_alloc_tree_node self record of
                    (None, self) \<Rightarrow> (Err MSP_ERR_NO_MEMORY, self)
                  | (Some tree_node, self) \<Rightarrow>
                      (Ret0, self\<lparr>active_nodes :=
                                    list_append (active_nodes self) (cr_right record) tree_node\<rparr>))
             | failed \<Rightarrow> failed)"

lemma process_record_frame:
  "tree_diff_iterator_process_record self record = (ret, self') \<Longrightarrow>
     it_num_records self' = it_num_records self \<and>
     next_record_index self' = next_record_index self"
  by (auto simp: tree_diff_iterator_process_record_def tree_diff_iterator_alloc_tree_node_def
      tree_diff_iterator_alloc_avl_node_def Let_def
      split: option.splits if_splits prod.splits avl_alloc.splits ret.splits)

subsection \<open>\<open>tree_diff_iterator_next_tree\<close>\<close>

text \<open>
  The loop \<open>while (not_done)\<close>; \<open>cr\<close> is the local record, which the code reads after the
  loop.
\<close>

function absorb_records ::
  "tree_diff_iterator_t \<Rightarrow> coalescence_record_t
     \<Rightarrow> ret \<times> coalescence_record_t \<times> tree_diff_iterator_t" where
  "absorb_records self cr =
     (case tree_sequence_get_record (tree_sequence self) (next_record_index self) cr of
        (ret, ts, cr) \<Rightarrow>
          if ret \<noteq> Ret0 then (ret, cr, self)
          else if cr_left cr = current_left self then
            (case tree_diff_iterator_process_record self cr of
               (ret, self') \<Rightarrow>
                 if ret \<noteq> Ret0 then (ret, cr, self')
                 else
                   let self' = self'\<lparr>next_record_index := next_record_index self' + 1\<rparr>
                   in if next_record_index self' < it_num_records self'
                      then absorb_records self' cr
                      else (Ret0, cr, self'))
          else (Ret0, cr, self))"
  by pat_completeness auto
termination absorb_records
  by (relation "measure (\<lambda>(self, cr). it_num_records self - next_record_index self)")
     (auto dest!: process_record_frame [OF sym])

declare absorb_records.simps [simp del]

text \<open>
  The out-parameters \<open>*length\<close>, \<open>*nodes_out\<close> and \<open>*nodes_in\<close> are variables of the caller:
  the function receives their values and returns them as it leaves them.
\<close>

type_synonym out_params = "u32 \<times> tree_node_t list \<times> tree_node_t list"

definition tree_diff_iterator_next_tree ::
  "tree_diff_iterator_t \<Rightarrow> out_params \<Rightarrow> ret \<times> out_params \<times> tree_diff_iterator_t" where
  "tree_diff_iterator_next_tree self params =
     (case params of (p_length, p_nodes_out, p_nodes_in) \<Rightarrow>
      let p_nodes_out = [] in
      case (if current_left self \<noteq> 0 then
              let self = free_tree_nodes self (nodes_in self);
                  self = self\<lparr>nodes_in := []\<rparr>
              in case avl_search (active_nodes self) (current_left self, []) of
                   None \<Rightarrow> (Err ASSERTION_FAILED, p_nodes_out, self)
                 | Some found \<Rightarrow>
                     let p_nodes_out = snd found
                     in case avl_prev (active_nodes self) (current_left self) of
                          None \<Rightarrow> (Ret0, p_nodes_out, self)
                        | Some tree_node_list \<Rightarrow>
                            let self = free_tree_nodes self (snd tree_node_list);
                                self = self\<lparr>active_nodes :=
                                  avl_unlink_node (active_nodes self) (fst tree_node_list)\<rparr>;
                                self = tree_diff_iterator_free_avl_node self
                            in (Ret0, p_nodes_out, self)
            else (Ret0, p_nodes_out, self)) of
        (Ret0, p_nodes_out, self) \<Rightarrow>
          if next_record_index self < it_num_records self then
            (case absorb_records self zero_record of
               (Ret0, cr, self) \<Rightarrow>
                 let p_length = (if next_record_index self = it_num_records self
                                 then cr_right cr - current_left self
                                 else cr_left cr - current_left self);
                     p_nodes_in = nodes_in self;
                     self = self\<lparr>current_left := cr_left cr\<rparr>
                 in (Ret1, (p_length, p_nodes_out, p_nodes_in), self)
             | (ret, cr, self) \<Rightarrow> (ret, (p_length, p_nodes_out, p_nodes_in), self))
          else (Ret0, (p_length, p_nodes_out, p_nodes_in), self)
      | (ret, p_nodes_out, self) \<Rightarrow> (ret, (p_length, p_nodes_out, p_nodes_in), self))"

subsection \<open>\<open>tree_diff_iterator_next\<close>\<close>

text \<open>
  \<open>MSP_ALL_BREAKPOINTS\<close> is a macro of \<open>msprime.h\<close> and a parameter here. The bound
  \<open>num_breakpoints - 1\<close> is computed in \<open>size_t\<close>, taken to be 64 bits wide: for no breakpoints
  it is \<open>2^64 - 1\<close>.
\<close>

definition tree_diff_iterator_next ::
  "32 word \<Rightarrow> tree_diff_iterator_t \<Rightarrow> out_params \<Rightarrow> ret \<times> out_params \<times> tree_diff_iterator_t" where
  "tree_diff_iterator_next MSP_ALL_BREAKPOINTS self params =
     (let bps = breakpoints (tree_sequence self);
          nb = num_breakpoints (tree_sequence self)
      in if flags self AND MSP_ALL_BREAKPOINTS \<noteq> 0 then
           if current_breakpoint_index self < (if nb = 0 then 2 ^ 64 - 1 else nb - 1) then
             (case array_get bps (current_breakpoint_index self) of
                None \<Rightarrow> (Err UNDEFINED_BEHAVIOUR, params, self)
              | Some b \<Rightarrow>
                  (case (if b \<noteq> next_breakpoint self
                         then (Ret1, (fst params, [], []), self)
                         else
                           (case tree_diff_iterator_next_tree self params of
                              (Ret1, params, self) \<Rightarrow>
                                (Ret1, params,
                                 self\<lparr>next_breakpoint := next_breakpoint self + fst params\<rparr>)
                            | (Ret0, params, self) \<Rightarrow> (Err ASSERTION_FAILED, params, self)
                            | failed \<Rightarrow> failed)) of
                     (Ret1, params, self) \<Rightarrow>
                       let self = self\<lparr>current_breakpoint_index :=
                                          current_breakpoint_index self + 1\<rparr>
                       in (case (array_get bps (current_breakpoint_index self),
                                 array_get bps (current_breakpoint_index self - 1)) of
                             (Some b1, Some b0) \<Rightarrow>
                               (Ret1, (b1 - b0, fst (snd params), snd (snd params)), self)
                           | _ \<Rightarrow> (Err UNDEFINED_BEHAVIOUR, params, self))
                   | failed \<Rightarrow> failed))
           else (Ret0, params, self)
         else tree_diff_iterator_next_tree self params)"

text \<open>
  A run: \<open>tree_diff_iterator_next\<close> is called until it returns something other than \<open>1\<close>, at
  most \<open>fuel\<close> times. The run is the list of the calls' return values and out-parameters,
  the last call included, with the iterator as the last call leaves it.
\<close>

fun iterate ::
  "32 word \<Rightarrow> nat \<Rightarrow> tree_diff_iterator_t \<Rightarrow> out_params
     \<Rightarrow> (ret \<times> out_params) list \<times> tree_diff_iterator_t" where
  "iterate all_bp 0 self params = ([], self)"
| "iterate all_bp (Suc fuel) self params =
     (case tree_diff_iterator_next all_bp self params of
        (ret, params', self') \<Rightarrow>
          if ret = Ret1
          then (case iterate all_bp fuel self' params' of
                  (calls, self'') \<Rightarrow> ((ret, params') # calls, self''))
          else ([(ret, params')], self'))"

definition store_S1 :: tree_sequence_t where
  "store_S1 =
     \<lparr>sample_size = 4, num_loci = 10, num_records = 3, num_breakpoints = 2,
      breakpoints = Some [0, 10],
      left = Some [0, 0, 0],
      right = Some [10, 10, 10],
      node = Some [5, 6, 7],
      children = Some [1, 2, 3, 4, 5, 6],
      time = Some [0x3FE0000000000000, 0x3FE6666666666666, 0x3FF4CCCCCCCCCCCD]\<rparr>"

definition blank_iterator :: tree_diff_iterator_t where
  "blank_iterator =
     \<lparr>tree_sequence = fresh_store, flags = 0, current_left = 0, next_record_index = 0,
      current_breakpoint_index = 0, next_breakpoint = 0, it_num_records = 0, nodes_in = [],
      active_nodes = [],
      tree_node_heap = \<lparr>oh_top = 0, oh_allocs = 0, oh_frees = 0\<rparr>,
      tree_node_list_heap = \<lparr>oh_top = 0, oh_allocs = 0, oh_frees = 0\<rparr>,
      avl_node_heap = \<lparr>oh_top = 0, oh_allocs = 0, oh_frees = 0\<rparr>\<rparr>"

section \<open>Invariants of the iterator's data structures\<close>

text \<open>The tree is ordered strictly by key.\<close>

definition avl_ok :: "avl_tree_t \<Rightarrow> bool" where
  "avl_ok t \<longleftrightarrow> sorted_wrt (<) (map fst t)"

text \<open>The number of tree nodes in the lists of the tree.\<close>

definition avl_nodes :: "avl_tree_t \<Rightarrow> nat" where
  "avl_nodes t = sum_list (map (\<lambda>x. length (snd x)) t)"

lemma cmp_tree_node_list_eq [simp]: "(cmp_tree_node_list a b = 0) = (fst a = fst b)"
  by (auto simp: cmp_tree_node_list_def)

lemma cmp_tree_node_list_less [simp]: "(cmp_tree_node_list a b < 0) = (fst a < fst b)"
  by (auto simp: cmp_tree_node_list_def)

lemma avl_search_None: "(avl_search t item = None) = (fst item \<notin> fst ` set t)"
  by (induction t) auto

lemma avl_search_Some: "avl_search t item = Some x \<Longrightarrow> x \<in> set t \<and> fst x = fst item"
  by (induction t) (auto split: if_splits)

lemma avl_insert_node_new:
  assumes "fst item \<notin> fst ` set t"
  shows "\<exists>t'. avl_insert_node t item = Some t' \<and> mset t' = add_mset item (mset t) \<and>
              (avl_ok t \<longrightarrow> avl_ok t')"
  using assms
proof (induction t)
  case Nil
  then show ?case by (simp add: avl_ok_def)
next
  case (Cons x t)
  then obtain t' where t': "avl_insert_node t item = Some t'" "mset t' = add_mset item (mset t)"
    "avl_ok t \<longrightarrow> avl_ok t'"
    by auto
  show ?case
  proof (cases "fst item < fst x")
    case True
    then show ?thesis using Cons.prems by (auto simp: avl_ok_def)
  next
    case False
    with Cons.prems have gt: "fst x < fst item" by auto
    have "avl_ok (x # t')" if "avl_ok (x # t)"
    proof -
      from that have "avl_ok t" "\<forall>y\<in>set t. fst x < fst y" by (auto simp: avl_ok_def)
      moreover have "set t' = insert item (set t)" using t'(2) by (metis set_mset_add_mset_insert set_mset_mset)
      ultimately show ?thesis using t'(3) gt by (auto simp: avl_ok_def)
    qed
    then show ?thesis using False gt t' Cons.prems by auto
  qed
qed

lemma avl_prev_Some:
  "avl_prev t key = Some x \<Longrightarrow> x \<in> set t \<and> (avl_ok t \<longrightarrow> fst x < key)"
  by (induction t key rule: avl_prev.induct) (auto simp: avl_ok_def split: if_splits)

lemma avl_ok_unlink: "avl_ok t \<Longrightarrow> avl_ok (avl_unlink_node t key)"
  by (simp add: avl_ok_def avl_unlink_node_def sorted_wrt_filter filter_map[symmetric] comp_def
      sorted_wrt_map)

lemma avl_ok_distinct: "avl_ok t \<Longrightarrow> distinct (map fst t)"
  by (simp add: avl_ok_def strict_sorted_iff)


lemma avl_unlink_one:
  assumes "avl_ok t" "x \<in> set t"
  shows "mset (avl_unlink_node t (fst x)) = mset t - {#x#}"
  using assms
proof (induction t)
  case Nil
  then show ?case by simp
next
  case (Cons y t)
  have d: "distinct (map fst (y # t))" using Cons.prems(1) by (rule avl_ok_distinct)
  have ok: "avl_ok t" using Cons.prems(1) by (simp add: avl_ok_def)
  show ?case
  proof (cases "x = y")
    case True
    with d have "\<forall>z\<in>set t. fst z \<noteq> fst x" by (auto simp: image_iff)
    then have "filter (\<lambda>z. fst z \<noteq> fst x) t = t" by (simp add: filter_id_conv)
    with True show ?thesis by (simp add: avl_unlink_node_def)
  next
    case False
    with Cons.prems have xt: "x \<in> set t" by simp
    with d have "fst y \<noteq> fst x" by (auto simp: image_iff)
    with Cons.IH [OF ok xt] xt show ?thesis
      by (simp add: avl_unlink_node_def)
  qed
qed

lemma avl_nodes_mset: "avl_nodes t = sum_mset (image_mset (\<lambda>x. length (snd x)) (mset t))"
  by (induction t) (simp_all add: avl_nodes_def)

lemma length_mset_eq: "mset t' = add_mset x (mset t) \<Longrightarrow> length t' = Suc (length t)"
  by (metis size_add_mset size_mset)

lemma list_append_keys [simp]: "map fst (list_append t key n) = map fst t"
  by (simp add: list_append_def comp_def if_distrib cong: if_cong)

lemma length_list_append [simp]: "length (list_append t key n) = length t"
  by (simp add: list_append_def)

lemma avl_ok_list_append [simp]: "avl_ok (list_append t key n) = avl_ok t"
  by (simp add: avl_ok_def)

lemma avl_nodes_list_append:
  assumes "distinct (map fst t)" "key \<in> fst ` set t"
  shows "avl_nodes (list_append t key n) = Suc (avl_nodes t)"
  using assms
proof (induction t)
  case Nil
  then show ?case by simp
next
  case (Cons x t)
  show ?case
  proof (cases "fst x = key")
    case True
    with Cons.prems(1) have "\<forall>y\<in>set t. fst y \<noteq> key" by (auto simp: image_iff)
    then have "map (\<lambda>x. if fst x = key then (fst x, snd x @ [n]) else x) t = t"
      by (simp add: map_idI)
    with True show ?thesis by (simp add: list_append_def avl_nodes_def)
  next
    case False
    with Cons.prems have "key \<in> fst ` set t" "distinct (map fst t)" by auto
    from Cons.IH [OF this(2,1)] False show ?thesis
      by (simp add: list_append_def avl_nodes_def)
  qed
qed

text \<open>
  The state of an iterator that is consistent: the tree is ordered, every arena's objects
  that were allocated and not freed are exactly those linked into \<open>nodes_in\<close> and the tree,
  these and the objects at hand make up the capacity the arena was created with, and the
  list pool and the AVL pool move together.
\<close>

definition iterator_ok :: "tree_diff_iterator_t \<Rightarrow> bool" where
  "iterator_ok self \<longleftrightarrow>
     avl_ok (active_nodes self) \<and>
     oh_allocs (tree_node_heap self) =
       oh_frees (tree_node_heap self) + length (nodes_in self) + avl_nodes (active_nodes self) \<and>
     oh_allocs (tree_node_list_heap self) =
       oh_frees (tree_node_list_heap self) + length (active_nodes self) \<and>
     oh_allocs (avl_node_heap self) =
       oh_frees (avl_node_heap self) + length (active_nodes self) \<and>
     oh_top (tree_node_heap self) + length (nodes_in self) + avl_nodes (active_nodes self) =
       unat (3 * sample_size (tree_sequence self)) \<and>
     oh_top (tree_node_list_heap self) + length (active_nodes self) =
       unat (sample_size (tree_sequence self)) \<and>
     oh_top (avl_node_heap self) + length (active_nodes self) =
       unat (sample_size (tree_sequence self))"

text \<open>The fields a call of \<open>tree_diff_iterator_process_record\<close> leaves alone.\<close>

definition same_position :: "tree_diff_iterator_t \<Rightarrow> tree_diff_iterator_t \<Rightarrow> bool" where
  "same_position self self' \<longleftrightarrow>
     tree_sequence self' = tree_sequence self \<and> flags self' = flags self \<and>
     current_left self' = current_left self \<and>
     next_record_index self' = next_record_index self \<and>
     current_breakpoint_index self' = current_breakpoint_index self \<and>
     next_breakpoint self' = next_breakpoint self \<and>
     it_num_records self' = it_num_records self"

definition node_of :: "coalescence_record_t \<Rightarrow> tree_node_t" where
  "node_of r =
     \<lparr>tn_id = cr_node r, tn_children0 = cr_children0 r, tn_children1 = cr_children1 r,
      tn_time = cr_time r\<rparr>"

text \<open>What a successful \<open>tree_diff_iterator_process_record\<close> does to the tree.\<close>

definition activate :: "avl_tree_t \<Rightarrow> coalescence_record_t \<Rightarrow> avl_tree_t" where
  "activate t r =
     list_append
       (case avl_search t (cr_right r, []) of
          Some _ \<Rightarrow> t
        | None \<Rightarrow> the (avl_insert_node t (cr_right r, [])))
       (cr_right r) (node_of r)"

lemma alloc_tree_node_eq:
  "tree_diff_iterator_alloc_tree_node self r =
     (if oh_top (tree_node_heap self) = 0 then (None, self)
      else (Some (node_of r),
            self\<lparr>tree_node_heap := (tree_node_heap self)
                   \<lparr>oh_top := oh_top (tree_node_heap self) - 1,
                    oh_allocs := oh_allocs (tree_node_heap self) + 1\<rparr>\<rparr>))"
  by (simp add: tree_diff_iterator_alloc_tree_node_def object_heap_empty_def
      object_heap_alloc_object_def node_of_def)

lemma alloc_avl_node_eq:
  "tree_diff_iterator_alloc_avl_node self key =
     (if oh_top (avl_node_heap self) = 0 then (Avl_NULL, self)
      else if oh_top (tree_node_list_heap self) = 0
      then (Avl_uninitialised,
            self\<lparr>avl_node_heap := (avl_node_heap self)
                   \<lparr>oh_top := oh_top (avl_node_heap self) - 1,
                    oh_allocs := oh_allocs (avl_node_heap self) + 1\<rparr>\<rparr>)
      else (Avl_node (key, []),
            self\<lparr>avl_node_heap := (avl_node_heap self)
                   \<lparr>oh_top := oh_top (avl_node_heap self) - 1,
                    oh_allocs := oh_allocs (avl_node_heap self) + 1\<rparr>,
                 tree_node_list_heap := (tree_node_list_heap self)
                   \<lparr>oh_top := oh_top (tree_node_list_heap self) - 1,
                    oh_allocs := oh_allocs (tree_node_list_heap self) + 1\<rparr>\<rparr>))"
  by (simp add: tree_diff_iterator_alloc_avl_node_def object_heap_empty_def
      object_heap_alloc_object_def Let_def)

lemma avl_nodes_activate:
  assumes "avl_ok t"
  shows "avl_ok (activate t r) \<and> avl_nodes (activate t r) = Suc (avl_nodes t) \<and>
         length (activate t r) =
           (if cr_right r \<in> fst ` set t then length t else Suc (length t))"
proof (cases "cr_right r \<in> fst ` set t")
  case True
  then obtain x where "avl_search t (cr_right r, []) = Some x"
    using avl_search_None [of t "(cr_right r, [])"] by auto
  then show ?thesis
    using assms True
    by (simp add: activate_def avl_nodes_list_append avl_ok_distinct)
next
  case False
  then have s: "avl_search t (cr_right r, []) = None" by (simp add: avl_search_None)
  from False obtain t' where t': "avl_insert_node t (cr_right r, []) = Some t'"
    "mset t' = add_mset (cr_right r, []) (mset t)" "avl_ok t'"
    using avl_insert_node_new [of "(cr_right r, [])" t] assms by auto
  have k: "cr_right r \<in> fst ` set t'"
    using t'(2) by (metis fst_conv image_eqI set_mset_mset union_single_eq_member)
  have n: "avl_nodes t' = avl_nodes t" using t'(2) by (simp add: avl_nodes_mset)
  show ?thesis
    using False s t' k n
    by (simp add: activate_def avl_nodes_list_append avl_ok_distinct length_mset_eq)
qed


lemma process_record_ok:
  assumes "iterator_ok self" "2 \<le> oh_top (tree_node_heap self)"
    and "cr_right r \<notin> fst ` set (active_nodes self) \<longrightarrow> 1 \<le> oh_top (avl_node_heap self)"
  shows "\<exists>self'. tree_diff_iterator_process_record self r = (Ret0, self') \<and>
           iterator_ok self' \<and> same_position self self' \<and>
           nodes_in self' = nodes_in self @ [node_of r] \<and>
           active_nodes self' = activate (active_nodes self) r"
proof -
  have ok: "avl_ok (active_nodes self)" using assms(1) by (simp add: iterator_ok_def)
  note act = avl_nodes_activate [OF ok, of r]
  show ?thesis
  proof (cases "cr_right r \<in> fst ` set (active_nodes self)")
    case True
    then obtain x where x: "avl_search (active_nodes self) (cr_right r, []) = Some x"
      using avl_search_None [of "active_nodes self" "(cr_right r, [])"] by auto
    have a: "activate (active_nodes self) r =
        list_append (active_nodes self) (cr_right r) (node_of r)"
      using x by (simp add: activate_def)
    show ?thesis
      using assms x act True unfolding a
      by (simp add: tree_diff_iterator_process_record_def alloc_tree_node_eq Let_def
          iterator_ok_def same_position_def; linarith)
  next
    case False
    then have s: "avl_search (active_nodes self) (cr_right r, []) = None"
      by (simp add: avl_search_None)
    from False obtain t' where t': "avl_insert_node (active_nodes self) (cr_right r, []) = Some t'"
      using avl_insert_node_new [of "(cr_right r, [])" "active_nodes self"] by auto
    have a: "activate (active_nodes self) r = list_append t' (cr_right r) (node_of r)"
      using s t' by (simp add: activate_def)
    have tops: "1 \<le> oh_top (avl_node_heap self)" "1 \<le> oh_top (tree_node_list_heap self)"
      using assms False by (simp_all add: iterator_ok_def)
    show ?thesis
      using assms(1,2) tops s t' act False unfolding a
      by (simp add: tree_diff_iterator_process_record_def alloc_tree_node_eq Let_def
          alloc_avl_node_eq iterator_ok_def same_position_def; linarith)
  qed
qed


lemma process_record_any:
  assumes "iterator_ok self" "tree_diff_iterator_process_record self r = (ret, self')"
  shows "iterator_ok self' \<and> same_position self self' \<and>
         (ret = Ret0 \<or> ret = Err MSP_ERR_NO_MEMORY)"
proof -
  let ?t = "active_nodes self"
  have ok: "avl_ok ?t" using assms(1) by (simp add: iterator_ok_def)
  consider (none) "oh_top (tree_node_heap self) = 0"
    | (known1) "oh_top (tree_node_heap self) = 1" "cr_right r \<in> fst ` set ?t"
    | (full) "oh_top (tree_node_heap self) \<noteq> 0" "cr_right r \<notin> fst ` set ?t"
        "oh_top (avl_node_heap self) = 0"
    | (new1) "oh_top (tree_node_heap self) = 1" "cr_right r \<notin> fst ` set ?t"
        "oh_top (avl_node_heap self) \<noteq> 0"
    | (room) "2 \<le> oh_top (tree_node_heap self)"
        "cr_right r \<notin> fst ` set ?t \<longrightarrow> 1 \<le> oh_top (avl_node_heap self)"
    by atomize_elim (cases "oh_top (tree_node_heap self) = 0";
        cases "oh_top (tree_node_heap self) = 1";
        cases "cr_right r \<in> fst ` set ?t"; cases "oh_top (avl_node_heap self) = 0"; simp; linarith)
  then show ?thesis
  proof cases
    case none
    then show ?thesis
      using assms
      by (auto simp: tree_diff_iterator_process_record_def alloc_tree_node_eq same_position_def)
  next
    case known1
    then obtain x where x: "avl_search ?t (cr_right r, []) = Some x"
      using avl_search_None [of ?t "(cr_right r, [])"] by auto
    show ?thesis
      using assms known1 x
      by (auto simp: tree_diff_iterator_process_record_def alloc_tree_node_eq Let_def
          iterator_ok_def same_position_def)
  next
    case full
    then have s: "avl_search ?t (cr_right r, []) = None" by (simp add: avl_search_None)
    show ?thesis
      using assms full s
      by (auto simp: tree_diff_iterator_process_record_def alloc_tree_node_eq Let_def
          alloc_avl_node_eq iterator_ok_def same_position_def)
  next
    case new1
    then have s: "avl_search ?t (cr_right r, []) = None" by (simp add: avl_search_None)
    from new1 obtain t' where t': "avl_insert_node ?t (cr_right r, []) = Some t'"
      "mset t' = add_mset (cr_right r, []) (mset ?t)" "avl_ok t'"
      using avl_insert_node_new [of "(cr_right r, [])" ?t] ok by auto
    have n: "avl_nodes t' = avl_nodes ?t" "length t' = Suc (length ?t)"
      using t'(2) by (simp_all add: avl_nodes_mset length_mset_eq)
    have tl: "oh_top (tree_node_list_heap self) \<noteq> 0"
      using assms(1) new1 by (simp add: iterator_ok_def)
    show ?thesis
      using assms new1 s t' n tl
      by (auto simp: tree_diff_iterator_process_record_def alloc_tree_node_eq Let_def
          alloc_avl_node_eq iterator_ok_def same_position_def)
  next
    case room
    from process_record_ok [OF assms(1) room, of ] assms(2) show ?thesis by auto
  qed
qed

text \<open>The fields no call of the iterator changes.\<close>

definition same_store :: "tree_diff_iterator_t \<Rightarrow> tree_diff_iterator_t \<Rightarrow> bool" where
  "same_store self self' \<longleftrightarrow>
     tree_sequence self' = tree_sequence self \<and> flags self' = flags self \<and>
     it_num_records self' = it_num_records self"

lemma same_position_store: "same_position self self' \<Longrightarrow> same_store self self'"
  by (simp add: same_position_def same_store_def)

lemma absorb_records_any:
  assumes "iterator_ok self" "absorb_records self cr = (ret, cr', self')"
  shows "iterator_ok self' \<and> same_store self self' \<and> current_left self' = current_left self \<and>
         current_breakpoint_index self' = current_breakpoint_index self \<and>
         next_breakpoint self' = next_breakpoint self"
  using assms
proof (induction self cr arbitrary: ret cr' self' rule: absorb_records.induct)
  case (1 self cr)
  obtain r0 ts0 cr0 where g:
    "tree_sequence_get_record (tree_sequence self) (next_record_index self) cr = (r0, ts0, cr0)"
    by (cases "tree_sequence_get_record (tree_sequence self) (next_record_index self) cr") auto
  show ?case
  proof (cases "r0 = Ret0 \<and> cr_left cr0 = current_left self")
    case False
    then show ?thesis
      using "1.prems" g
      by (subst (asm) absorb_records.simps) (auto simp: same_store_def split: if_splits)
  next
    case True
    obtain r1 s1 where p: "tree_diff_iterator_process_record self cr0 = (r1, s1)"
      by (cases "tree_diff_iterator_process_record self cr0") auto
    note pa = process_record_any [OF "1.prems"(1) p]
    show ?thesis
    proof (cases "r1 = Ret0 \<and>
        next_record_index s1 + 1 < it_num_records s1")
      case False
      then show ?thesis
        using "1.prems" g True p pa
        by (subst (asm) absorb_records.simps)
           (auto simp: same_store_def same_position_def iterator_ok_def split: if_splits)
    next
      case rec: True
      let ?s2 = "s1\<lparr>next_record_index := next_record_index s1 + 1\<rparr>"
      have ok2: "iterator_ok ?s2" using pa by (simp add: iterator_ok_def)
      have eq: "absorb_records self cr = absorb_records ?s2 cr0"
        using g True p rec by (subst absorb_records.simps) (simp add: Let_def)
      have "iterator_ok self' \<and> same_store ?s2 self' \<and> current_left self' = current_left ?s2 \<and>
         current_breakpoint_index self' = current_breakpoint_index ?s2 \<and>
         next_breakpoint self' = next_breakpoint ?s2"
        apply (rule "1.IH" [OF g [symmetric] refl])
        using True apply simp
        using True apply simp
             apply (rule p [symmetric])
        using rec apply simp
           apply (rule refl)
        using rec apply simp
         apply (rule ok2)
        using "1.prems"(2) eq apply simp
        done
      then show ?thesis
        using pa by (simp add: same_store_def same_position_def)
    qed
  qed
qed


lemma free_tree_nodes_eq:
  "free_tree_nodes self xs =
     self\<lparr>tree_node_heap := (tree_node_heap self)
            \<lparr>oh_top := oh_top (tree_node_heap self) + length xs,
             oh_frees := oh_frees (tree_node_heap self) + length xs\<rparr>\<rparr>"
  by (induction xs arbitrary: self)
     (simp_all add: tree_diff_iterator_free_tree_node_def object_heap_free_object_def)

text \<open>
  The first part of \<open>tree_diff_iterator_next_tree\<close>, which retires the nodes of the step
  before: its result is the status, the value of \<open>*nodes_out\<close> and the iterator.
\<close>

definition retire ::
  "tree_diff_iterator_t \<Rightarrow> ret \<times> tree_node_t list \<times> tree_diff_iterator_t" where
  "retire self =
     (if current_left self \<noteq> 0 then
        let self = free_tree_nodes self (nodes_in self);
            self = self\<lparr>nodes_in := []\<rparr>
        in case avl_search (active_nodes self) (current_left self, []) of
             None \<Rightarrow> (Err ASSERTION_FAILED, [], self)
           | Some found \<Rightarrow>
               let p_nodes_out = snd found
               in case avl_prev (active_nodes self) (current_left self) of
                    None \<Rightarrow> (Ret0, p_nodes_out, self)
                  | Some tree_node_list \<Rightarrow>
                      let self = free_tree_nodes self (snd tree_node_list);
                          self = self\<lparr>active_nodes :=
                            avl_unlink_node (active_nodes self) (fst tree_node_list)\<rparr>;
                          self = tree_diff_iterator_free_avl_node self
                      in (Ret0, p_nodes_out, self)
      else (Ret0, [], self))"

lemma next_tree_retire:
  "tree_diff_iterator_next_tree self (p_length, p_nodes_out, p_nodes_in) =
     (case retire self of
        (Ret0, p_nodes_out, self) \<Rightarrow>
          if next_record_index self < it_num_records self then
            (case absorb_records self zero_record of
               (Ret0, cr, self) \<Rightarrow>
                 (Ret1,
                  (if next_record_index self = it_num_records self
                   then cr_right cr - current_left self
                   else cr_left cr - current_left self,
                   p_nodes_out, nodes_in self),
                  self\<lparr>current_left := cr_left cr\<rparr>)
             | (ret, cr, self) \<Rightarrow> (ret, (p_length, p_nodes_out, p_nodes_in), self))
          else (Ret0, (p_length, p_nodes_out, p_nodes_in), self)
      | (ret, p_nodes_out, self) \<Rightarrow> (ret, (p_length, p_nodes_out, p_nodes_in), self))"
  unfolding tree_diff_iterator_next_tree_def retire_def Let_def by simp

lemma avl_unlink_sizes:
  assumes "avl_ok t" "x \<in> set t"
  shows "Suc (length (avl_unlink_node t (fst x))) = length t"
    and "avl_nodes (avl_unlink_node t (fst x)) + length (snd x) = avl_nodes t"
proof -
  note m = avl_unlink_one [OF assms]
  have "mset t = add_mset x (mset (avl_unlink_node t (fst x)))"
    using m assms(2) by simp
  then show "Suc (length (avl_unlink_node t (fst x))) = length t"
    "avl_nodes (avl_unlink_node t (fst x)) + length (snd x) = avl_nodes t"
    by (simp_all add: avl_nodes_mset length_mset_eq)
qed

lemma retire_any:
  assumes "iterator_ok self" "retire self = (ret, out, self')"
  shows "iterator_ok self' \<and> same_position self self' \<and>
         (ret = Ret0 \<or> ret = Err ASSERTION_FAILED)"
proof (cases "current_left self = 0")
  case True
  then show ?thesis using assms by (auto simp: retire_def same_position_def)
next
  case c: False
  let ?t = "active_nodes self"
  have ok: "avl_ok ?t" using assms(1) by (simp add: iterator_ok_def)
  show ?thesis
  proof (cases "avl_search ?t (current_left self, [])")
    case None
    then show ?thesis
      using assms c
      by (auto simp: retire_def free_tree_nodes_eq same_position_def iterator_ok_def)
  next
    case (Some found)
    show ?thesis
    proof (cases "avl_prev ?t (current_left self)")
      case None
      then show ?thesis
        using assms c Some
        by (auto simp: retire_def free_tree_nodes_eq same_position_def iterator_ok_def)
    next
      case prev: (Some x)
      then have x: "x \<in> set ?t" by (simp add: avl_prev_Some)
      note sz = avl_unlink_sizes [OF ok x]
      have "length ?t \<noteq> 0" using x by auto
      then show ?thesis
        using assms c Some prev sz avl_ok_unlink [OF ok, of "fst x"]
        by (auto simp: retire_def free_tree_nodes_eq same_position_def iterator_ok_def
            tree_diff_iterator_free_avl_node_def object_heap_free_object_def Let_def)
    qed
  qed
qed

lemma next_tree_any:
  assumes "iterator_ok self" "tree_diff_iterator_next_tree self p = (ret, p', self')"
  shows "iterator_ok self' \<and> same_store self self' \<and>
         current_breakpoint_index self' = current_breakpoint_index self \<and>
         next_breakpoint self' = next_breakpoint self"
proof -
  obtain p_length p_nodes_out p_nodes_in where p: "p = (p_length, p_nodes_out, p_nodes_in)"
    by (cases p) auto
  obtain r0 out s0 where r: "retire self = (r0, out, s0)" by (cases "retire self") auto
  note ra = retire_any [OF assms(1) r]
  show ?thesis
  proof (cases "r0 = Ret0 \<and> next_record_index s0 < it_num_records s0")
    case False
    then show ?thesis
      using assms(2) ra r unfolding p next_tree_retire
      by (auto simp: same_position_def same_store_def)
  next
    case True
    obtain r1 cr s1 where a: "absorb_records s0 zero_record = (r1, cr, s1)"
      by (cases "absorb_records s0 zero_record") auto
    from ra have "iterator_ok s0" by simp
    note aa = absorb_records_any [OF this a]
    show ?thesis
      using assms(2) ra r True a aa unfolding p next_tree_retire
      by (cases r1) (auto simp: same_position_def same_store_def iterator_ok_def)
  qed
qed

text \<open>
  The end of the \<open>MSP_ALL_BREAKPOINTS\<close> branch of \<open>tree_diff_iterator_next\<close>: the breakpoint
  index moves on and \<open>*length\<close> becomes the distance of the two breakpoints.
\<close>

definition advance_breakpoint ::
  "tree_diff_iterator_t \<Rightarrow> out_params \<Rightarrow> ret \<times> out_params \<times> tree_diff_iterator_t" where
  "advance_breakpoint self params =
     (let bps = breakpoints (tree_sequence self);
          self = self\<lparr>current_breakpoint_index := current_breakpoint_index self + 1\<rparr>
      in case (array_get bps (current_breakpoint_index self),
               array_get bps (current_breakpoint_index self - 1)) of
           (Some b1, Some b0) \<Rightarrow> (Ret1, (b1 - b0, fst (snd params), snd (snd params)), self)
         | _ \<Rightarrow> (Err UNDEFINED_BEHAVIOUR, params, self))"

lemma next_all_breakpoints:
  assumes "flags self AND all_bp \<noteq> 0"
  shows "tree_diff_iterator_next all_bp self params =
     (let bps = breakpoints (tree_sequence self);
          nb = num_breakpoints (tree_sequence self)
      in if current_breakpoint_index self < (if nb = 0 then 2 ^ 64 - 1 else nb - 1) then
           (case array_get bps (current_breakpoint_index self) of
              None \<Rightarrow> (Err UNDEFINED_BEHAVIOUR, params, self)
            | Some b \<Rightarrow>
                if b \<noteq> next_breakpoint self
                then advance_breakpoint self (fst params, [], [])
                else
                  (case tree_diff_iterator_next_tree self params of
                     (Ret1, params', self') \<Rightarrow>
                       if tree_sequence self' = tree_sequence self
                       then advance_breakpoint
                              (self'\<lparr>next_breakpoint := next_breakpoint self' + fst params'\<rparr>)
                              params'
                       else tree_diff_iterator_next all_bp self params
                   | (Ret0, params', self') \<Rightarrow> (Err ASSERTION_FAILED, params', self')
                   | failed \<Rightarrow> failed))
         else (Ret0, params, self))"
  using assms
  by (auto simp: tree_diff_iterator_next_def advance_breakpoint_def Let_def
      split: option.splits prod.splits ret.splits)

lemma iterator_ok_breakpoint_fields [simp]:
  "iterator_ok (self\<lparr>next_breakpoint := a\<rparr>) = iterator_ok self"
  "iterator_ok (self\<lparr>current_breakpoint_index := b\<rparr>) = iterator_ok self"
  by (simp_all add: iterator_ok_def)

lemma same_store_breakpoint_fields [simp]:
  "same_store s (self\<lparr>next_breakpoint := a\<rparr>) = same_store s self"
  "same_store s (self\<lparr>current_breakpoint_index := b\<rparr>) = same_store s self"
  by (simp_all add: same_store_def)

lemma advance_breakpoint_any:
  assumes "advance_breakpoint self params = (ret, p', self')"
  shows "iterator_ok self' = iterator_ok self \<and> same_store s self' = same_store s self"
  using assms by (auto simp: advance_breakpoint_def Let_def split: option.splits)

lemma next_any:
  assumes "iterator_ok self" "tree_diff_iterator_next all_bp self p = (ret, p', self')"
  shows "iterator_ok self' \<and> same_store self self'"
proof (cases "flags self AND all_bp \<noteq> 0")
  case False
  then show ?thesis
    using assms next_tree_any [OF assms(1), of p ret p' self']
    by (simp add: tree_diff_iterator_next_def)
next
  case True
  have same: "same_store self self" by (simp add: same_store_def)
  let ?nb = "num_breakpoints (tree_sequence self)"
  show ?thesis
  proof (cases "current_breakpoint_index self < (if ?nb = 0 then 2 ^ 64 - 1 else ?nb - 1)")
    case False
    then show ?thesis using assms same by (simp add: next_all_breakpoints [OF True])
  next
    case idx: True
    show ?thesis
    proof (cases "array_get (breakpoints (tree_sequence self)) (current_breakpoint_index self)")
      case None
      then show ?thesis using assms same idx by (simp add: next_all_breakpoints [OF True])
    next
      case (Some b)
      show ?thesis
      proof (cases "b \<noteq> next_breakpoint self")
        case True
        then have "advance_breakpoint self (fst p, [], []) = (ret, p', self')"
          using assms(2) idx Some by (simp add: next_all_breakpoints [OF \<open>flags self AND all_bp \<noteq> 0\<close>])
        from advance_breakpoint_any [OF this, of self] assms(1) same show ?thesis by simp
      next
        case False
        obtain r1 p1 s1 where t: "tree_diff_iterator_next_tree self p = (r1, p1, s1)"
          by (cases "tree_diff_iterator_next_tree self p") auto
        note ta = next_tree_any [OF assms(1) t]
        then have ts: "tree_sequence s1 = tree_sequence self" by (simp add: same_store_def)
        show ?thesis
        proof (cases r1)
          case Ret1
          then have "advance_breakpoint (s1\<lparr>next_breakpoint := next_breakpoint s1 + fst p1\<rparr>) p1 =
              (ret, p', self')"
            using assms(2) idx Some False t ts
            by (simp add: next_all_breakpoints [OF \<open>flags self AND all_bp \<noteq> 0\<close>])
          from advance_breakpoint_any [OF this, of self] ta show ?thesis by simp
        next
          case Ret0
          then show ?thesis
            using assms(2) idx Some False t ta
            by (simp add: next_all_breakpoints [OF \<open>flags self AND all_bp \<noteq> 0\<close>])
        next
          case (Err e)
          then show ?thesis
            using assms(2) idx Some False t ta
            by (simp add: next_all_breakpoints [OF \<open>flags self AND all_bp \<noteq> 0\<close>])
        qed
      qed
    qed
  qed
qed

lemma iterate_any:
  assumes "iterator_ok self" "iterate all_bp fuel self p = (calls, self')"
  shows "iterator_ok self' \<and> same_store self self'"
  using assms
proof (induction fuel arbitrary: self p calls self')
  case 0
  then show ?case by (simp add: same_store_def)
next
  case (Suc fuel)
  obtain r1 p1 s1 where n: "tree_diff_iterator_next all_bp self p = (r1, p1, s1)"
    by (cases "tree_diff_iterator_next all_bp self p") auto
  note na = next_any [OF Suc.prems(1) n]
  show ?case
  proof (cases "r1 = Ret1")
    case False
    then show ?thesis using Suc.prems n na by auto
  next
    case True
    obtain cs s2 where i: "iterate all_bp fuel s1 p1 = (cs, s2)"
      by (cases "iterate all_bp fuel s1 p1") auto
    from Suc.IH [OF _ i] na have "iterator_ok s2 \<and> same_store s1 s2" by simp
    then show ?thesis
      using Suc.prems n True i na by (auto simp: same_store_def)
  qed
qed

lemma alloc_ok:
  assumes "tree_diff_iterator_alloc mem self0 ts flgs = (Ret0, self, mem')"
  shows "iterator_ok self \<and> tree_sequence self = ts \<and> flags self = flgs \<and>
         current_left self = 0 \<and> next_record_index self = 0 \<and>
         current_breakpoint_index self = 0 \<and> next_breakpoint self = 0 \<and>
         it_num_records self = num_records ts \<and> nodes_in self = [] \<and> active_nodes self = [] \<and>
         mem_live mem' = mem_live mem + 3"
  using assms
  by (auto simp: tree_diff_iterator_alloc_def object_heap_init_def malloc_eq Let_def
      mem_live_after_malloc iterator_ok_def avl_ok_def avl_nodes_def
      tree_sequence_get_num_coalescence_records_def split: if_splits)

section \<open>The arenas at the end of a run\<close>

text \<open>
  Claim C6, amended. After any run of an iterator that \<open>tree_diff_iterator_alloc\<close> has set
  up, so also when \<open>tree_diff_iterator_next\<close> has returned \<open>0\<close>, each arena has as many allocs
  as frees plus the objects still linked into the iterator: for the tree-node heap the
  nodes of \<open>nodes_in\<close> and of the lists in \<open>active_nodes\<close>, for the list heap and the AVL-node
  heap the entries of \<open>active_nodes\<close>. These objects are never freed one by one;
  \<open>tree_diff_iterator_free\<close> releases the three arenas as a whole.
\<close>

theorem arenas_hold_linked_objects:
  assumes "tree_diff_iterator_alloc mem self0 ts flgs = (Ret0, it0, mem0)"
    and "iterate all_bp fuel it0 p = (calls, self)"
  shows "oh_allocs (tree_node_heap self) =
           oh_frees (tree_node_heap self) + length (nodes_in self) +
           avl_nodes (active_nodes self) \<and>
         oh_allocs (tree_node_list_heap self) =
           oh_frees (tree_node_list_heap self) + length (active_nodes self) \<and>
         oh_allocs (avl_node_heap self) =
           oh_frees (avl_node_heap self) + length (active_nodes self) \<and>
         mem_live (snd (tree_diff_iterator_free mem0 self)) = mem_live mem"
proof -
  from alloc_ok [OF assms(1)] have ok: "iterator_ok it0" and live: "mem_live mem0 = mem_live mem + 3"
    by simp_all
  from iterate_any [OF ok assms(2)] have "iterator_ok self" by simp
  then show ?thesis
    using live by (simp add: iterator_ok_def tree_diff_iterator_free_def object_heap_free_def)
qed

definition it0_S1 :: tree_diff_iterator_t where
  "it0_S1 = fst (snd (tree_diff_iterator_alloc all_granted blank_iterator store_S1 0))"

definition it0_S2 :: tree_diff_iterator_t where
  "it0_S2 = fst (snd (tree_diff_iterator_alloc all_granted blank_iterator store_S2 0))"

lemma it0_S1_eq:
  "tree_diff_iterator_alloc all_granted blank_iterator store_S1 0 =
     (Ret0, it0_S1, \<lparr>mem_plan = [True, True, True, True], mem_live = 3\<rparr>)"
  by (simp add: it0_S1_def tree_diff_iterator_alloc_def object_heap_init_def malloc_def
      all_granted_def numeral_eq_Suc Let_def)

theorem arenas_hold_linked_objects_witness:
  "tree_diff_iterator_alloc all_granted blank_iterator store_S1 0 =
     (Ret0, it0_S1, \<lparr>mem_plan = [True, True, True, True], mem_live = 3\<rparr>) \<and>
   map fst (fst (iterate 1 5 it0_S1 (0, [], []))) = [Ret1, Ret0] \<and>
   oh_allocs (tree_node_heap (snd (iterate 1 5 it0_S1 (0, [], [])))) =
     oh_frees (tree_node_heap (snd (iterate 1 5 it0_S1 (0, [], [])))) +
     length (nodes_in (snd (iterate 1 5 it0_S1 (0, [], [])))) +
     avl_nodes (active_nodes (snd (iterate 1 5 it0_S1 (0, [], [])))) \<and>
   length (nodes_in (snd (iterate 1 5 it0_S1 (0, [], [])))) = 3 \<and>
   avl_nodes (active_nodes (snd (iterate 1 5 it0_S1 (0, [], [])))) = 3 \<and>
   mem_live (snd (tree_diff_iterator_free \<lparr>mem_plan = [True, True, True, True], mem_live = 3\<rparr>
                    (snd (iterate 1 5 it0_S1 (0, [], []))))) = mem_live all_granted"
proof -
  let ?r = "iterate 1 5 it0_S1 (0, [], [])"
  have i: "?r = (fst ?r, snd ?r)" by simp
  have c: "map fst (fst ?r) = [Ret1, Ret0]" by code_simp
  have n: "length (nodes_in (snd ?r)) = 3" by code_simp
  have m: "avl_nodes (active_nodes (snd ?r)) = 3" by code_simp
  show ?thesis
    using it0_S1_eq c n m arenas_hold_linked_objects [OF it0_S1_eq i]
    by simp
qed

text \<open>
  The claim as the spec states it fails. On the store of scenario S1 the iterator returns
  one step and then \<open>0\<close>; at that point six tree nodes, one list and one AVL node have been
  allocated and none has been freed.
\<close>

theorem run_leaves_objects_allocated:
  "map fst (fst (iterate 1 5 it0_S1 (0, [], []))) = [Ret1, Ret0] \<and>
   oh_allocs (tree_node_heap (snd (iterate 1 5 it0_S1 (0, [], [])))) = 6 \<and>
   oh_frees (tree_node_heap (snd (iterate 1 5 it0_S1 (0, [], [])))) = 0 \<and>
   oh_allocs (tree_node_list_heap (snd (iterate 1 5 it0_S1 (0, [], [])))) = 1 \<and>
   oh_frees (tree_node_list_heap (snd (iterate 1 5 it0_S1 (0, [], [])))) = 0 \<and>
   oh_allocs (avl_node_heap (snd (iterate 1 5 it0_S1 (0, [], [])))) = 1 \<and>
   oh_frees (avl_node_heap (snd (iterate 1 5 it0_S1 (0, [], [])))) = 0"
  by code_simp

section \<open>The end of the iteration is final\<close>

text \<open>
  Calling on: the result of the call of \<open>tree_diff_iterator_next\<close> that follows \<open>k\<close> earlier
  ones, each started with the out-parameters as the one before left them.
\<close>

fun call_again ::
  "32 word \<Rightarrow> nat \<Rightarrow> tree_diff_iterator_t \<Rightarrow> out_params
     \<Rightarrow> ret \<times> out_params \<times> tree_diff_iterator_t" where
  "call_again all_bp 0 self params = tree_diff_iterator_next all_bp self params"
| "call_again all_bp (Suc k) self params =
     (case tree_diff_iterator_next all_bp self params of
        (ret, params', self') \<Rightarrow> call_again all_bp k self' params')"

text \<open>
  The state in which \<open>tree_diff_iterator_next_tree\<close> returns \<open>0\<close>: no record is left, and the
  list of the current left coordinate, if that is not \<open>0\<close>, is in the tree.
\<close>

definition at_end :: "tree_diff_iterator_t \<Rightarrow> bool" where
  "at_end self \<longleftrightarrow>
     \<not> next_record_index self < it_num_records self \<and>
     (current_left self = 0 \<or>
      avl_search (active_nodes self) (current_left self, []) \<noteq> None)"

lemma retire_keeps_current:
  assumes "iterator_ok self" "retire self = (Ret0, out, s0)"
  shows "current_left s0 = 0 \<or> avl_search (active_nodes s0) (current_left s0, []) \<noteq> None"
proof (cases "current_left self = 0")
  case True
  then show ?thesis using assms by (auto simp: retire_def)
next
  case c: False
  let ?t = "active_nodes self"
  have ok: "avl_ok ?t" using assms(1) by (simp add: iterator_ok_def)
  show ?thesis
  proof (cases "avl_search ?t (current_left self, [])")
    case None
    then show ?thesis using assms c by (simp add: retire_def free_tree_nodes_eq)
  next
    case (Some found)
    then have k: "current_left self \<in> fst ` set ?t"
      using avl_search_None [of ?t "(current_left self, [])"] by auto
    show ?thesis
    proof (cases "avl_prev ?t (current_left self)")
      case None
      then show ?thesis
        using assms c Some by (auto simp: retire_def free_tree_nodes_eq)
    next
      case prev: (Some x)
      then have "fst x < current_left self" using ok by (simp add: avl_prev_Some)
      then have "current_left self \<in> fst ` set (avl_unlink_node ?t (fst x))"
        using k by (auto simp: avl_unlink_node_def)
      then have "avl_search (avl_unlink_node ?t (fst x)) (current_left self, []) \<noteq> None"
        by (simp add: avl_search_None)
      then show ?thesis
        using assms c Some prev
        by (auto simp: retire_def free_tree_nodes_eq Let_def
            tree_diff_iterator_free_avl_node_def)
    qed
  qed
qed

lemma retire_at_end:
  assumes "at_end self"
  shows "\<exists>out s0. retire self = (Ret0, out, s0)"
  using assms
  by (auto simp: at_end_def retire_def free_tree_nodes_eq Let_def split: option.splits)

lemma next_tree_Ret0:
  assumes "iterator_ok self" "tree_diff_iterator_next_tree self p = (Ret0, p', self')"
  shows "at_end self' \<and> fst p' = fst p \<and> snd (snd p') = snd (snd p)"
proof -
  obtain p_length p_nodes_out p_nodes_in where p: "p = (p_length, p_nodes_out, p_nodes_in)"
    by (cases p) auto
  obtain r0 out s0 where r: "retire self = (r0, out, s0)" by (cases "retire self") auto
  show ?thesis
  proof (cases "r0 = Ret0")
    case False
    then show ?thesis using assms(2) r unfolding p next_tree_retire by (cases r0) auto
  next
    case True
    note k = retire_keeps_current [OF assms(1) r [unfolded True]]
    show ?thesis
    proof (cases "next_record_index s0 < it_num_records s0")
      case False
      then show ?thesis
        using assms(2) r True k unfolding p next_tree_retire by (auto simp: at_end_def)
    next
      case more: True
      obtain r1 cr s1 where a: "absorb_records s0 zero_record = (r1, cr, s1)"
        by (cases "absorb_records s0 zero_record") auto
      show ?thesis
        using assms(2) r True more a unfolding p next_tree_retire by (cases r1) auto
    qed
  qed
qed

lemma next_tree_at_end:
  assumes "iterator_ok self" "at_end self"
  shows "\<exists>p' self'. tree_diff_iterator_next_tree self p = (Ret0, p', self')"
proof -
  obtain p_length p_nodes_out p_nodes_in where p: "p = (p_length, p_nodes_out, p_nodes_in)"
    by (cases p) auto
  obtain out s0 where r: "retire self = (Ret0, out, s0)"
    using retire_at_end [OF assms(2)] by blast
  from retire_any [OF assms(1) r] have "same_position self s0" by simp
  then have "\<not> next_record_index s0 < it_num_records s0"
    using assms(2) by (simp add: at_end_def same_position_def)
  then show ?thesis unfolding p next_tree_retire using r by simp
qed

lemma call_again_at_end:
  assumes "iterator_ok self" "at_end self" "flags self AND all_bp = 0"
  shows "\<exists>out self'. call_again all_bp k self p = (Ret0, (fst p, out, snd (snd p)), self')"
  using assms
proof (induction k arbitrary: self p)
  case 0
  obtain p' self' where n: "tree_diff_iterator_next_tree self p = (Ret0, p', self')"
    using next_tree_at_end [OF "0.prems"(1,2)] by blast
  from next_tree_Ret0 [OF "0.prems"(1) n] have "p' = (fst p, fst (snd p'), snd (snd p))"
    by (cases p') auto
  with n "0.prems"(3) show ?case
    by (simp add: tree_diff_iterator_next_def) metis
next
  case (Suc k)
  obtain p' self' where n: "tree_diff_iterator_next_tree self p = (Ret0, p', self')"
    using next_tree_at_end [OF Suc.prems(1,2)] by blast
  note e = next_tree_Ret0 [OF Suc.prems(1) n]
  note a = next_tree_any [OF Suc.prems(1) n]
  have "\<exists>out self''. call_again all_bp k self' p' = (Ret0, (fst p', out, snd (snd p')), self'')"
    using Suc.IH [of self' p'] e a Suc.prems(3) by (simp add: same_store_def)
  then show ?case
    using n e Suc.prems(3) by (simp add: tree_diff_iterator_next_def)
qed

text \<open>
  Claim C10. In \<open>DISTINCT_TREES\<close> mode (the flag \<open>MSP_ALL_BREAKPOINTS\<close> is not set), for every
  store, once a call of \<open>tree_diff_iterator_next\<close> on an iterator set up by
  \<open>tree_diff_iterator_alloc\<close> has returned \<open>0\<close>, every later call returns \<open>0\<close> as well, and
  leaves \<open>*length\<close> and \<open>*nodes_in\<close> as they were: no span and no in-list is emitted again.
\<close>

theorem end_is_absorbing:
  assumes "tree_diff_iterator_alloc mem self0 ts flgs = (Ret0, it0, mem0)"
    and "flgs AND all_bp = 0"
    and "call_again all_bp j it0 p0 = (Ret0, p, self)"
  shows "\<exists>out self'. call_again all_bp k self p = (Ret0, (fst p, out, snd (snd p)), self')"
proof -
  have "iterator_ok self \<and> at_end self \<and> flags self = flgs"
    if "iterator_ok s" "flags s = flgs" "call_again all_bp j s q = (Ret0, p, self)" for s q
    using that
  proof (induction j arbitrary: s q)
    case 0
    then have n: "tree_diff_iterator_next_tree s q = (Ret0, p, self)"
      using assms(2) by (simp add: tree_diff_iterator_next_def)
    from next_tree_Ret0 [OF "0.prems"(1) n] next_tree_any [OF "0.prems"(1) n] "0.prems"(2)
    show ?case by (simp add: same_store_def)
  next
    case (Suc j)
    obtain r1 q1 s1 where n: "tree_diff_iterator_next all_bp s q = (r1, q1, s1)"
      by (cases "tree_diff_iterator_next all_bp s q") auto
    from next_any [OF Suc.prems(1) n] Suc.prems(2)
    have "iterator_ok s1" "flags s1 = flgs" by (simp_all add: same_store_def)
    from Suc.IH [OF this] Suc.prems(3) n show ?case by simp
  qed
  from this [of it0 p0] alloc_ok [OF assms(1)] assms(3)
  have "iterator_ok self" "at_end self" "flags self = flgs" by simp_all
  with assms(2) show ?thesis by (intro call_again_at_end) simp_all
qed

theorem end_is_absorbing_witness:
  "tree_diff_iterator_alloc all_granted blank_iterator store_S2 0 =
     (Ret0, it0_S2, \<lparr>mem_plan = [True, True, True, True], mem_live = 3\<rparr>) \<and>
   (0 :: 32 word) AND 1 = 0 \<and>
   fst (call_again 1 2 it0_S2 (0, [], [])) = Ret0 \<and>
   fst (call_again 1 0 (snd (snd (call_again 1 2 it0_S2 (0, [], []))))
          (fst (snd (call_again 1 2 it0_S2 (0, [], []))))) = Ret0 \<and>
   fst (call_again 1 5 (snd (snd (call_again 1 2 it0_S2 (0, [], []))))
          (fst (snd (call_again 1 2 it0_S2 (0, [], []))))) = Ret0"
proof -
  have a: "tree_diff_iterator_alloc all_granted blank_iterator store_S2 0 =
     (Ret0, it0_S2, \<lparr>mem_plan = [True, True, True, True], mem_live = 3\<rparr>)"
    by (simp add: it0_S2_def tree_diff_iterator_alloc_def object_heap_init_def malloc_def
      all_granted_def numeral_eq_Suc Let_def)
  have f: "(0 :: 32 word) AND 1 = 0" by simp
  let ?r = "call_again 1 2 it0_S2 (0, [], [])"
  have r: "fst ?r = Ret0" by code_simp
  then have c: "?r = (Ret0, fst (snd ?r), snd (snd ?r))"
    by (metis prod.collapse)
  show ?thesis
    using a f r end_is_absorbing [OF a f c, of 0] end_is_absorbing [OF a f c, of 5]
    by auto
qed

section \<open>The tree of active lists and the records\<close>

text \<open>
  The tree represents a list of records \<open>S\<close>: its keys are the right coordinates of the
  records of \<open>S\<close>, and under each key stands the list of the nodes of the records that
  end there, in the order of \<open>S\<close>.
\<close>

definition represents :: "avl_tree_t \<Rightarrow> coalescence_record_t list \<Rightarrow> bool" where
  "represents t S \<longleftrightarrow>
     avl_ok t \<and> fst ` set t = cr_right ` set S \<and>
     (\<forall>x\<in>set t. snd x = map node_of (filter (\<lambda>r. cr_right r = fst x) S)) \<and>
     avl_nodes t = length S"

lemma represents_empty: "represents [] []"
  by (simp add: represents_def avl_ok_def avl_nodes_def)

lemma represents_length:
  assumes "represents t S"
  shows "length t = card (cr_right ` set S)"
proof -
  have "distinct (map fst t)" using assms by (simp add: represents_def avl_ok_distinct)
  then have "card (set (map fst t)) = length (map fst t)" by (rule distinct_card)
  then show ?thesis using assms by (simp add: represents_def)
qed

lemma set_activate:
  assumes "avl_ok t"
  shows "\<exists>t1. activate t r = list_append t1 (cr_right r) (node_of r) \<and>
           (if cr_right r \<in> fst ` set t then t1 = t
            else set t1 = insert (cr_right r, []) (set t))"
proof (cases "cr_right r \<in> fst ` set t")
  case True
  then obtain x where "avl_search t (cr_right r, []) = Some x"
    using avl_search_None [of t "(cr_right r, [])"] by auto
  then show ?thesis using True by (simp add: activate_def)
next
  case False
  then have s: "avl_search t (cr_right r, []) = None" by (simp add: avl_search_None)
  from False obtain t' where t': "avl_insert_node t (cr_right r, []) = Some t'"
    "mset t' = add_mset (cr_right r, []) (mset t)"
    using avl_insert_node_new [of "(cr_right r, [])" t] by auto
  from t'(2) have "set t' = insert (cr_right r, []) (set t)"
    by (metis set_mset_add_mset_insert set_mset_mset)
  then show ?thesis using False s t' by (auto simp: activate_def intro!: exI [of _ t'])
qed

lemma represents_activate:
  assumes "represents t S"
  shows "represents (activate t r) (S @ [r])"
proof -
  have ok: "avl_ok t" using assms by (simp add: represents_def)
  note a = avl_nodes_activate [OF ok, of r]
  obtain t1 where t1: "activate t r = list_append t1 (cr_right r) (node_of r)"
    "if cr_right r \<in> fst ` set t then t1 = t else set t1 = insert (cr_right r, []) (set t)"
    using set_activate [OF ok, of r] by blast
  have keys1: "fst ` set t1 = insert (cr_right r) (fst ` set t)"
    using t1(2) by (auto split: if_splits)
  have keys: "fst ` set (activate t r) = cr_right ` set (S @ [r])"
  proof -
    have "fst ` set (activate t r) = set (map fst (activate t r))" by simp
    also have "\<dots> = set (map fst t1)" unfolding t1(1) by (simp only: list_append_keys)
    finally show ?thesis using keys1 assms by (auto simp: represents_def)
  qed
  have old: "snd x = map node_of (filter (\<lambda>q. cr_right q = fst x) S)" if "x \<in> set t1" for x
  proof (cases "x \<in> set t")
    case True
    then show ?thesis using assms by (simp add: represents_def)
  next
    case False
    with that t1(2) have x: "x = (cr_right r, [])" "cr_right r \<notin> fst ` set t"
      by (auto split: if_splits)
    then have "cr_right r \<notin> cr_right ` set S" using assms by (simp add: represents_def)
    then have "filter (\<lambda>q. cr_right q = cr_right r) S = []"
      by (auto simp: filter_empty_conv image_iff)
    with x show ?thesis by simp
  qed
  have contents: "snd y = map node_of (filter (\<lambda>q. cr_right q = fst y) (S @ [r]))"
    if "y \<in> set (activate t r)" for y
  proof -
    from that have "y \<in> (\<lambda>x. if fst x = cr_right r then (fst x, snd x @ [node_of r]) else x) ` set t1"
      unfolding t1(1) list_append_def by simp
    then obtain x where x: "x \<in> set t1"
      "y = (if fst x = cr_right r then (fst x, snd x @ [node_of r]) else x)"
      by blast
    show ?thesis using x old [OF x(1)] by auto
  qed
  show ?thesis
    using a keys contents assms by (simp add: represents_def)
qed

lemma image_filter_neq: "f ` set (filter (\<lambda>x. f x \<noteq> k) xs) = f ` set xs - {k}"
  by (auto simp: image_iff)

lemma represents_unlink:
  assumes "represents t S" "x \<in> set t"
  shows "represents (avl_unlink_node t (fst x)) (filter (\<lambda>r. cr_right r \<noteq> fst x) S)"
proof -
  have ok: "avl_ok t" using assms by (simp add: represents_def)
  note sz = avl_unlink_sizes [OF ok assms(2)]
  have sx: "length (snd x) = length (filter (\<lambda>r. cr_right r = fst x) S)"
    using assms by (simp add: represents_def)
  have "length (filter (\<lambda>r. cr_right r = fst x) S) +
      length (filter (\<lambda>r. cr_right r \<noteq> fst x) S) = length S"
    using sum_length_filter_compl [of "\<lambda>r. cr_right r = fst x" S] by simp
  with sz(2) sx assms(1) have n: "avl_nodes (avl_unlink_node t (fst x)) =
      length (filter (\<lambda>r. cr_right r \<noteq> fst x) S)"
    by (simp add: represents_def)
  have keys: "fst ` set (avl_unlink_node t (fst x)) =
      cr_right ` set (filter (\<lambda>r. cr_right r \<noteq> fst x) S)"
  proof -
    have "fst ` set (avl_unlink_node t (fst x)) = fst ` set t - {fst x}"
      unfolding avl_unlink_node_def by (rule image_filter_neq)
    also have "\<dots> = cr_right ` set S - {fst x}" using assms(1) by (simp add: represents_def)
    also have "\<dots> = cr_right ` set (filter (\<lambda>r. cr_right r \<noteq> fst x) S)"
      by (rule image_filter_neq [symmetric])
    finally show ?thesis .
  qed
  have contents: "snd y = map node_of
      (filter (\<lambda>q. cr_right q = fst y) (filter (\<lambda>r. cr_right r \<noteq> fst x) S))"
    if "y \<in> set (avl_unlink_node t (fst x))" for y
  proof -
    from that have y: "y \<in> set t" "fst y \<noteq> fst x" by (auto simp: avl_unlink_node_def)
    then have "filter (\<lambda>q. cr_right q = fst y) (filter (\<lambda>r. cr_right r \<noteq> fst x) S) =
        filter (\<lambda>q. cr_right q = fst y) S"
      by (induction S) auto
    with y assms(1) show ?thesis by (simp add: represents_def del: filter_filter)
  qed
  show ?thesis
    using avl_ok_unlink [OF ok] n keys contents by (simp add: represents_def)
qed

lemma represents_search:
  assumes "represents t S" "k \<in> cr_right ` set S"
  shows "avl_search t (k, []) = Some (k, map node_of (filter (\<lambda>r. cr_right r = k) S))"
proof -
  from assms have "k \<in> fst ` set t" by (simp add: represents_def)
  then obtain x where x: "avl_search t (k, []) = Some x"
    using avl_search_None [of t "(k, [])"] by auto
  from avl_search_Some [OF x] assms(1) have "fst x = k"
    "snd x = map node_of (filter (\<lambda>r. cr_right r = k) S)"
    by (auto simp: represents_def)
  with x show ?thesis by (cases x) simp
qed

lemma avl_prev_None:
  assumes "avl_ok t" "key \<in> fst ` set t" "avl_prev t key = None"
  shows "\<forall>y\<in>set t. key \<le> fst y"
  using assms
proof (induction t key rule: avl_prev.induct)
  case (1 key)
  then show ?case by simp
next
  case (2 x key)
  then show ?case by simp
next
  case (3 x y t key)
  from "3.prems"(3) have ne: "fst y \<noteq> key" and p: "avl_prev (y # t) key = None"
    by (auto split: if_splits)
  show ?case
  proof (cases "fst x = key")
    case True
    with "3.prems"(1) show ?thesis by (auto simp: avl_ok_def)
  next
    case False
    with "3.prems"(2) have "key \<in> fst ` set (y # t)" by auto
    moreover have "avl_ok (y # t)" using "3.prems"(1) by (simp add: avl_ok_def)
    ultimately have "\<forall>z\<in>set (y # t). key \<le> fst z" using "3.IH" ne p by simp
    then have "key \<le> fst y" by simp
    moreover have "key \<in> fst ` set (y # t)" by fact
    ultimately have "key = fst y \<or> (\<exists>z\<in>set t. fst z = key)" by auto
    with ne obtain z where "z \<in> set t" "fst z = key" by auto
    with "3.prems"(1) have "fst y < key" by (auto simp: avl_ok_def)
    with \<open>key \<le> fst y\<close> show ?thesis by simp
  qed
qed

section \<open>One step of the iterator on the records\<close>

lemma get_record_records_of:
  assumes "store_allocated ts" "i < num_records ts"
  shows "tree_sequence_get_record ts i cr = (Ret0, ts, records_of ts ! i)"
  using get_record_in_range [OF assms, of cr] assms(2) by (simp add: records_of_def)

lemma length_records_of [simp]: "length (records_of ts) = num_records ts"
  by (simp add: records_of_def)

text \<open>
  The loop of \<open>tree_diff_iterator_next_tree\<close>, started at record \<open>m\<close> with a tree that
  represents \<open>S\<close>: it takes up the records from \<open>m\<close> on whose left coordinate is the current
  one, provided the arenas have room for them.
\<close>

lemma absorb_group:
  assumes "store_allocated ts" "rs = records_of ts"
    and "G = takeWhile (\<lambda>r. cr_left r = current_left self) (drop m rs)"
    and "iterator_ok self" "tree_sequence self = ts" "it_num_records self = length rs"
    and "next_record_index self = m" "m < length rs"
    and "represents (active_nodes self) S"
    and "2 * length G \<le> oh_top (tree_node_heap self)"
    and "card (cr_right ` (set S \<union> set G)) \<le> unat (sample_size ts)"
  shows "\<exists>self'. absorb_records self cr =
           (Ret0, if m + length G < length rs then rs ! (m + length G) else last rs, self') \<and>
         iterator_ok self' \<and> same_store self self' \<and>
         current_left self' = current_left self \<and>
         current_breakpoint_index self' = current_breakpoint_index self \<and>
         next_breakpoint self' = next_breakpoint self \<and>
         next_record_index self' = m + length G \<and>
         nodes_in self' = nodes_in self @ map node_of G \<and>
         represents (active_nodes self') (S @ G)"
  using assms(3-)
proof (induction G arbitrary: m self S cr)
  case Nil
  from Nil.prems(5,6) have d: "drop m rs = rs ! m # drop (Suc m) rs"
    by (simp add: Cons_nth_drop_Suc)
  with Nil.prems(1) have ne: "cr_left (rs ! m) \<noteq> current_left self"
    by (auto split: if_splits)
  have g: "tree_sequence_get_record (tree_sequence self) (next_record_index self) cr =
      (Ret0, ts, rs ! m)"
    using get_record_records_of [OF assms(1), of m cr] Nil.prems assms(2) by simp
  show ?case
    using g ne Nil.prems
    by (subst absorb_records.simps) (simp add: same_store_def)
next
  case (Cons g G)
  let ?c = "current_left self"
  from Cons.prems(5,6) have d: "drop m rs = rs ! m # drop (Suc m) rs"
    by (simp add: Cons_nth_drop_Suc)
  with Cons.prems(1) have eq: "cr_left (rs ! m) = ?c" "g = rs ! m"
    and G: "G = takeWhile (\<lambda>r. cr_left r = ?c) (drop (Suc m) rs)"
    by (auto split: if_splits)
  have gr: "tree_sequence_get_record (tree_sequence self) (next_record_index self) cr =
      (Ret0, ts, g)"
    using get_record_records_of [OF assms(1), of m cr] Cons.prems assms(2) eq by simp
  have len: "length (active_nodes self) = card (cr_right ` set S)"
    using Cons.prems(7) by (rule represents_length)
  have room: "cr_right g \<notin> fst ` set (active_nodes self) \<longrightarrow> 1 \<le> oh_top (avl_node_heap self)"
  proof
    assume "cr_right g \<notin> fst ` set (active_nodes self)"
    then have "cr_right g \<notin> cr_right ` set S" using Cons.prems(7) by (simp add: represents_def)
    then have "card (insert (cr_right g) (cr_right ` set S)) = Suc (card (cr_right ` set S))"
      by simp
    moreover have "card (insert (cr_right g) (cr_right ` set S)) \<le>
        card (cr_right ` (set S \<union> set (g # G)))"
      by (intro card_mono) auto
    ultimately have "Suc (length (active_nodes self)) \<le> unat (sample_size ts)"
      using Cons.prems(9) len by simp
    then show "1 \<le> oh_top (avl_node_heap self)"
      using Cons.prems(2,3) by (simp add: iterator_ok_def)
  qed
  from Cons.prems(8) have two: "2 \<le> oh_top (tree_node_heap self)" by simp
  obtain s1 where s1: "tree_diff_iterator_process_record self g = (Ret0, s1)"
    "iterator_ok s1" "same_position self s1" "nodes_in s1 = nodes_in self @ [node_of g]"
    "active_nodes s1 = activate (active_nodes self) g"
    using process_record_ok [OF Cons.prems(2) two room] by blast
  let ?s2 = "s1\<lparr>next_record_index := next_record_index s1 + 1\<rparr>"
  have ok2: "iterator_ok ?s2" using s1(2) by (simp add: iterator_ok_def)
  have rep2: "represents (active_nodes ?s2) (S @ [g])"
    using represents_activate [OF Cons.prems(7), of g] s1(5) by simp
  have top2: "2 * length G \<le> oh_top (tree_node_heap ?s2)"
  proof -
    have "avl_nodes (active_nodes s1) = Suc (avl_nodes (active_nodes self))"
      using rep2 Cons.prems(7) by (simp add: represents_def)
    then have "oh_top (tree_node_heap s1) + 2 = oh_top (tree_node_heap self)"
      using s1(2,3,4) Cons.prems(2) by (simp add: iterator_ok_def same_position_def)
    then show ?thesis using Cons.prems(8) by simp
  qed
  have pos: "tree_sequence ?s2 = ts" "it_num_records ?s2 = length rs"
    "next_record_index ?s2 = Suc m" "current_left ?s2 = ?c"
    using s1(3) Cons.prems by (simp_all add: same_position_def)
  show ?case
  proof (cases "Suc m < length rs")
    case False
    with Cons.prems(6) have m: "Suc m = length rs" by simp
    then have "G = []" using G by simp
    moreover have "last rs = g" using m eq(2) by (metis Cons.prems(6) diff_Suc_1 last_conv_nth list.size(3) not_less0)
    ultimately show ?thesis
      using gr eq s1 ok2 rep2 pos m Cons.prems(2-7)
      by (subst absorb_records.simps)
         (simp add: same_store_def same_position_def Let_def)
  next
    case True
    have G': "G = takeWhile (\<lambda>r. cr_left r = current_left ?s2) (drop (Suc m) rs)"
      using G pos by simp
    have card2: "card (cr_right ` (set (S @ [g]) \<union> set G)) \<le> unat (sample_size ts)"
    proof -
      have "set (S @ [g]) \<union> set G = set S \<union> set (g # G)" by auto
      then show ?thesis using Cons.prems(9) by simp
    qed
    obtain self' where r: "absorb_records ?s2 g =
           (Ret0, if Suc m + length G < length rs then rs ! (Suc m + length G) else last rs, self')"
         "iterator_ok self'" "same_store ?s2 self'"
         "current_left self' = current_left ?s2"
         "current_breakpoint_index self' = current_breakpoint_index ?s2"
         "next_breakpoint self' = next_breakpoint ?s2"
         "next_record_index self' = Suc m + length G"
         "nodes_in self' = nodes_in ?s2 @ map node_of G"
         "represents (active_nodes self') ((S @ [g]) @ G)"
      using Cons.IH [OF G' ok2 pos(1,2,3) True rep2 top2 card2, of g] by blast
    have step: "absorb_records self cr = absorb_records ?s2 g"
      using gr eq s1 pos True
      by (subst absorb_records.simps) (simp add: Let_def)
    show ?thesis
      unfolding step using r s1 pos
      by (simp add: same_store_def same_position_def)
  qed
qed

section \<open>The data model's invariants\<close>

text \<open>
  Section 3 of the spec. Every record has \<open>left < right \<le> num_loci\<close>; the records are
  sorted by \<open>left\<close>; and every coordinate \<open>x\<close> of \<open>[0, num_loci)\<close> is covered by a local tree
  on the \<open>sample_size\<close> samples. Of the local tree the iterator needs one consequence only,
  which is what \<open>local_trees\<close> states: a binary tree on \<open>n\<close> samples has \<open>n - 1\<close> internal nodes,
  each the parent of exactly one record, so \<open>n - 1\<close> records cover \<open>x\<close>.
\<close>

definition records_valid :: "tree_sequence_t \<Rightarrow> bool" where
  "records_valid ts \<longleftrightarrow>
     (\<forall>r\<in>set (records_of ts). cr_left r < cr_right r \<and> cr_right r \<le> num_loci ts)"

definition records_sorted :: "tree_sequence_t \<Rightarrow> bool" where
  "records_sorted ts \<longleftrightarrow> sorted (map cr_left (records_of ts))"

definition covering :: "tree_sequence_t \<Rightarrow> nat \<Rightarrow> coalescence_record_t list" where
  "covering ts x =
     filter (\<lambda>r. unat (cr_left r) \<le> x \<and> x < unat (cr_right r)) (records_of ts)"

definition local_trees :: "tree_sequence_t \<Rightarrow> bool" where
  "local_trees ts \<longleftrightarrow>
     (\<forall>x<unat (num_loci ts). length (covering ts x) = unat (sample_size ts) - 1)"

text \<open>
  The breakpoints increase strictly from \<open>0\<close> to \<open>num_loci\<close> and are exactly the left and
  right coordinates of the records.
\<close>

definition breakpoints_valid :: "tree_sequence_t \<Rightarrow> bool" where
  "breakpoints_valid ts \<longleftrightarrow>
     (case breakpoints ts of
        None \<Rightarrow> False
      | Some bs \<Rightarrow>
          sorted_wrt (<) bs \<and> bs \<noteq> [] \<and> hd bs = 0 \<and> last bs = num_loci ts \<and>
          set bs = cr_left ` set (records_of ts) \<union> cr_right ` set (records_of ts))"

definition data_model_invariants :: "tree_sequence_t \<Rightarrow> bool" where
  "data_model_invariants ts \<longleftrightarrow>
     store_allocated ts \<and> records_valid ts \<and> records_sorted ts \<and> local_trees ts \<and>
     breakpoints_valid ts"

subsection \<open>Where a tree changes, records end and records begin\<close>

lemma balance_nat:
  fixes l r :: "'a \<Rightarrow> nat"
  assumes "\<forall>a\<in>set xs. l a < r a" "0 < x"
  shows "length (filter (\<lambda>a. l a \<le> x \<and> x < r a) xs) + length (filter (\<lambda>a. r a = x) xs) =
         length (filter (\<lambda>a. l a \<le> x - 1 \<and> x - 1 < r a) xs) + length (filter (\<lambda>a. l a = x) xs)"
  using assms
proof (induction xs)
  case Nil
  then show ?case by simp
next
  case (Cons a xs)
  then have ih: "length (filter (\<lambda>a. l a \<le> x \<and> x < r a) xs) + length (filter (\<lambda>a. r a = x) xs) =
         length (filter (\<lambda>a. l a \<le> x - 1 \<and> x - 1 < r a) xs) + length (filter (\<lambda>a. l a = x) xs)"
    and a: "l a < r a" by simp_all
  consider "l a = x" | "r a = x" | "l a < x" "x < r a" | "r a < x" | "x < l a"
    by linarith
  then show ?case
    using ih a Cons.prems(2) by cases auto
qed

lemma exists_length_filter: "(\<exists>a\<in>set xs. P a) = (0 < length (filter P xs))"
  by (simp add: filter_empty_conv length_greater_0_conv)

text \<open>A left coordinate other than \<open>0\<close> is the right coordinate of some record.\<close>

lemma left_is_right:
  assumes "records_valid ts" "local_trees ts"
    and "r \<in> set (records_of ts)" "cr_left r \<noteq> 0"
  shows "\<exists>r'\<in>set (records_of ts). cr_right r' = cr_left r"
proof -
  let ?rs = "records_of ts" and ?x = "unat (cr_left r)"
  have v: "\<forall>a\<in>set ?rs. unat (cr_left a) < unat (cr_right a)"
    using assms(1) by (simp add: records_valid_def word_less_nat_alt)
  have x: "0 < ?x" using assms(4) by (simp add: unat_gt_0)
  have "cr_left r < cr_right r" "cr_right r \<le> num_loci ts"
    using assms(1,3) by (simp_all add: records_valid_def)
  then have xl: "?x < unat (num_loci ts)" by (simp add: word_less_nat_alt word_le_nat_alt)
  then have "length (covering ts ?x) = length (covering ts (?x - 1))"
    using assms(2) by (simp add: local_trees_def)
  with balance_nat [OF v x]
  have "length (filter (\<lambda>a. unat (cr_right a) = ?x) ?rs) =
      length (filter (\<lambda>a. unat (cr_left a) = ?x) ?rs)"
    by (simp add: covering_def)
  moreover have "0 < length (filter (\<lambda>a. unat (cr_left a) = ?x) ?rs)"
    using assms(3) by (auto simp: filter_empty_conv)
  ultimately have "\<exists>a\<in>set ?rs. unat (cr_right a) = ?x"
    by (simp add: exists_length_filter)
  then show ?thesis by (auto simp: word_unat_eq_iff)
qed

text \<open>A right coordinate below \<open>num_loci\<close> is the left coordinate of some record.\<close>

lemma right_is_left:
  assumes "records_valid ts" "local_trees ts"
    and "r \<in> set (records_of ts)" "cr_right r < num_loci ts"
  shows "\<exists>r'\<in>set (records_of ts). cr_left r' = cr_right r"
proof -
  let ?rs = "records_of ts" and ?x = "unat (cr_right r)"
  have v: "\<forall>a\<in>set ?rs. unat (cr_left a) < unat (cr_right a)"
    using assms(1) by (simp add: records_valid_def word_less_nat_alt)
  have "cr_left r < cr_right r" using assms(1,3) by (simp add: records_valid_def)
  then have x: "0 < ?x" by (simp add: word_less_nat_alt)
  have xl: "?x < unat (num_loci ts)" using assms(4) by (simp add: word_less_nat_alt)
  then have "length (covering ts ?x) = length (covering ts (?x - 1))"
    using assms(2) by (simp add: local_trees_def)
  with balance_nat [OF v x]
  have "length (filter (\<lambda>a. unat (cr_right a) = ?x) ?rs) =
      length (filter (\<lambda>a. unat (cr_left a) = ?x) ?rs)"
    by (simp add: covering_def)
  moreover have "0 < length (filter (\<lambda>a. unat (cr_right a) = ?x) ?rs)"
    using assms(3) by (auto simp: filter_empty_conv)
  ultimately have "\<exists>a\<in>set ?rs. unat (cr_left a) = ?x"
    by (simp add: exists_length_filter)
  then show ?thesis by (auto simp: word_unat_eq_iff)
qed

subsection \<open>The records at the start of a tree\<close>

definition records_ok :: "tree_sequence_t \<Rightarrow> bool" where
  "records_ok ts \<longleftrightarrow>
     store_allocated ts \<and> records_valid ts \<and> records_sorted ts \<and> local_trees ts"

text \<open>
  Record \<open>i\<close> starts a tree when no record before it has its left coordinate; the records of
  the tree are the run of records from \<open>i\<close> on with that coordinate.
\<close>

definition group_start :: "tree_sequence_t \<Rightarrow> nat \<Rightarrow> bool" where
  "group_start ts i \<longleftrightarrow>
     i < num_records ts \<and>
     (\<forall>q<i. cr_left (records_of ts ! q) < cr_left (records_of ts ! i))"

definition group_at :: "tree_sequence_t \<Rightarrow> nat \<Rightarrow> coalescence_record_t list" where
  "group_at ts i =
     takeWhile (\<lambda>r. cr_left r = cr_left (records_of ts ! i)) (drop i (records_of ts))"

lemma sorted_lefts:
  assumes "records_sorted ts" "q \<le> q'" "q' < num_records ts"
  shows "cr_left (records_of ts ! q) \<le> cr_left (records_of ts ! q')"
proof -
  have "map cr_left (records_of ts) ! q \<le> map cr_left (records_of ts) ! q'"
    using assms by (simp add: records_sorted_def sorted_iff_nth_mono del: nth_map)
  then show ?thesis using assms(2,3) by simp
qed

lemma record_earlier:
  assumes "records_sorted ts" "i < num_records ts"
    and "r \<in> set (records_of ts)" "cr_left r < cr_left (records_of ts ! i)"
  shows "r \<in> set (take i (records_of ts))"
proof -
  from assms(3) obtain q where q: "q < num_records ts" "records_of ts ! q = r"
    by (auto simp: in_set_conv_nth)
  have "q < i"
  proof (rule ccontr)
    assume "\<not> q < i"
    then have "cr_left (records_of ts ! i) \<le> cr_left (records_of ts ! q)"
      using sorted_lefts [OF assms(1) _ q(1), of i] by simp
    then show False using assms(4) q(2) by simp
  qed
  then show ?thesis using q assms(2) by (auto simp: in_set_conv_nth)
qed

lemma current_left_is_right:
  assumes "records_ok ts" "group_start ts i" "0 < i"
  shows "cr_left (records_of ts ! i) \<in> cr_right ` set (take i (records_of ts))"
proof -
  let ?rs = "records_of ts"
  from assms(2) have i: "i < num_records ts" by (simp add: group_start_def)
  from assms(2,3) have "cr_left (?rs ! (i - 1)) < cr_left (?rs ! i)"
    by (simp add: group_start_def)
  then have nz: "cr_left (?rs ! i) \<noteq> 0" by (auto simp: word_less_nat_alt)
  have mem: "?rs ! i \<in> set ?rs" using i by simp
  from left_is_right [OF _ _ mem nz] assms(1)
  obtain r' where r': "r' \<in> set ?rs" "cr_right r' = cr_left (?rs ! i)"
    by (auto simp: records_ok_def)
  have "cr_left r' < cr_right r'" using assms(1) r'(1) by (simp add: records_ok_def records_valid_def)
  then have "r' \<in> set (take i ?rs)"
    using record_earlier [OF _ i r'(1)] assms(1) r'(2) by (simp add: records_ok_def)
  then show ?thesis using r'(2) by (metis imageI)
qed

lemma rights_below_current_left:
  assumes "records_ok ts" "group_start ts i" "0 < i"
    and "r \<in> set (take i (records_of ts))" "cr_right r < cr_left (records_of ts ! i)"
  shows "cr_right r \<le> cr_left (records_of ts ! (i - 1))"
proof -
  let ?rs = "records_of ts"
  from assms(2) have i: "i < num_records ts" by (simp add: group_start_def)
  have srt: "records_sorted ts" and val: "records_valid ts" and loc: "local_trees ts"
    using assms(1) by (simp_all add: records_ok_def)
  have r: "r \<in> set ?rs" using assms(4) by (rule in_set_takeD)
  have "?rs ! i \<in> set ?rs" using i by simp
  then have "cr_left (?rs ! i) < cr_right (?rs ! i)" "cr_right (?rs ! i) \<le> num_loci ts"
    using val by (simp_all add: records_valid_def)
  then have "cr_right r < num_loci ts" using assms(5) by simp
  from right_is_left [OF val loc r this]
  obtain r' where r': "r' \<in> set ?rs" "cr_left r' = cr_right r" by auto
  then obtain q where q: "q < num_records ts" "?rs ! q = r'" by (auto simp: in_set_conv_nth)
  have "q < i"
  proof (rule ccontr)
    assume "\<not> q < i"
    then have "cr_left (?rs ! i) \<le> cr_left (?rs ! q)"
      using sorted_lefts [OF srt _ q(1), of i] by simp
    then show False using assms(5) q(2) r'(2) by simp
  qed
  then have "cr_left (?rs ! q) \<le> cr_left (?rs ! (i - 1))"
    using sorted_lefts [OF srt, of q "i - 1"] i by simp
  then show ?thesis using q(2) r'(2) by simp
qed

lemma last_right_is_num_loci:
  assumes "records_ok ts" "0 < num_records ts"
  shows "cr_right (last (records_of ts)) = num_loci ts"
proof (rule ccontr)
  let ?rs = "records_of ts"
  assume ne: "cr_right (last ?rs) \<noteq> num_loci ts"
  have srt: "records_sorted ts" and val: "records_valid ts" and loc: "local_trees ts"
    using assms(1) by (simp_all add: records_ok_def)
  have nonempty: "?rs \<noteq> []" using assms(2) by (simp add: records_of_def)
  then have l: "last ?rs \<in> set ?rs" by simp
  then have lv: "cr_left (last ?rs) < cr_right (last ?rs)" "cr_right (last ?rs) \<le> num_loci ts"
    using val by (simp_all add: records_valid_def)
  with ne have "cr_right (last ?rs) < num_loci ts" by simp
  from right_is_left [OF val loc l this]
  obtain r' where r': "r' \<in> set ?rs" "cr_left r' = cr_right (last ?rs)" by auto
  then obtain q where q: "q < num_records ts" "?rs ! q = r'" by (auto simp: in_set_conv_nth)
  have "cr_left (?rs ! q) \<le> cr_left (?rs ! (num_records ts - 1))"
    using sorted_lefts [OF srt, of q "num_records ts - 1"] q(1) by simp
  moreover have "last ?rs = ?rs ! (num_records ts - 1)"
    using nonempty by (simp add: last_conv_nth)
  ultimately show False using lv(1) q(2) r'(2) by simp
qed

lemma first_left_is_zero:
  assumes "records_ok ts" "0 < num_records ts"
  shows "cr_left (records_of ts ! 0) = 0"
proof (rule ccontr)
  let ?rs = "records_of ts"
  assume nz: "cr_left (?rs ! 0) \<noteq> 0"
  have srt: "records_sorted ts" and val: "records_valid ts" and loc: "local_trees ts"
    using assms(1) by (simp_all add: records_ok_def)
  have mem: "?rs ! 0 \<in> set ?rs" using assms(2) by simp
  from left_is_right [OF val loc mem nz]
  obtain r' where r': "r' \<in> set ?rs" "cr_right r' = cr_left (?rs ! 0)" by auto
  then obtain q where q: "q < num_records ts" "?rs ! q = r'" by (auto simp: in_set_conv_nth)
  have "cr_left r' < cr_right r'" using val r'(1) by (simp add: records_valid_def)
  moreover have "cr_left (?rs ! 0) \<le> cr_left (?rs ! q)"
    using sorted_lefts [OF srt _ q(1), of 0] by simp
  ultimately show False using q(2) r'(2) by simp
qed

lemma group_split:
  "records_of ts =
     take i (records_of ts) @ group_at ts i @
     dropWhile (\<lambda>r. cr_left r = cr_left (records_of ts ! i)) (drop i (records_of ts))"
  by (simp add: group_at_def)

lemma group_drop:
  "drop i (records_of ts) =
     group_at ts i @
     dropWhile (\<lambda>r. cr_left r = cr_left (records_of ts ! i)) (drop i (records_of ts))"
  by (simp add: group_at_def)

lemma group_nonempty:
  assumes "i < num_records ts"
  shows "group_at ts i \<noteq> []"
proof -
  have "drop i (records_of ts) = records_of ts ! i # drop (Suc i) (records_of ts)"
    using assms by (simp add: Cons_nth_drop_Suc)
  then show ?thesis by (simp add: group_at_def)
qed

lemma group_length:
  assumes "i \<le> num_records ts"
  shows "i + length (group_at ts i) \<le> num_records ts"
proof -
  have "length (group_at ts i) \<le> length (drop i (records_of ts))"
    unfolding group_at_def by (rule length_takeWhile_le)
  then show ?thesis using assms by simp
qed

lemma group_member:
  assumes "r \<in> set (group_at ts i)"
  shows "cr_left r = cr_left (records_of ts ! i)" "r \<in> set (records_of ts)"
  using assms by (auto simp: group_at_def dest: set_takeWhileD in_set_dropD)

lemma take_group:
  "take (i + length (group_at ts i)) (records_of ts) = take i (records_of ts) @ group_at ts i"
proof -
  have "take (i + length (group_at ts i)) (records_of ts) =
      take i (records_of ts) @ take (length (group_at ts i)) (drop i (records_of ts))"
    by (rule take_add)
  also have "take (length (group_at ts i)) (drop i (records_of ts)) = group_at ts i"
    by (subst group_drop) simp
  finally show ?thesis .
qed

text \<open>The record after the records of a tree starts the next tree.\<close>

lemma next_group_start:
  assumes "records_sorted ts" "i < num_records ts"
    and "i + length (group_at ts i) < num_records ts"
  shows "group_start ts (i + length (group_at ts i))"
    and "cr_left (records_of ts ! (i + length (group_at ts i) - 1)) = cr_left (records_of ts ! i)"
    and "cr_left (records_of ts ! i) < cr_left (records_of ts ! (i + length (group_at ts i)))"
proof -
  let ?rs = "records_of ts" and ?G = "group_at ts i"
  let ?j = "i + length ?G"
  let ?P = "\<lambda>r. cr_left r = cr_left (?rs ! i)"
  have len: "length (takeWhile ?P (drop i ?rs)) < length (drop i ?rs)"
    using assms(3) by (simp add: group_at_def)
  from nth_length_takeWhile [OF len]
  have "cr_left (?rs ! ?j) \<noteq> cr_left (?rs ! i)"
    using assms(3) by (simp add: group_at_def)
  moreover have "cr_left (?rs ! i) \<le> cr_left (?rs ! ?j)"
    using sorted_lefts [OF assms(1) _ assms(3), of i] by simp
  ultimately show lt: "cr_left (?rs ! i) < cr_left (?rs ! ?j)" by simp
  have pos: "0 < length ?G" using group_nonempty [OF assms(2)] by simp
  then have "?G ! (length ?G - 1) \<in> set ?G" by simp
  then have "cr_left (?G ! (length ?G - 1)) = cr_left (?rs ! i)" by (rule group_member)
  moreover have "?G ! (length ?G - 1) = drop i ?rs ! (length ?G - 1)"
    unfolding group_at_def using pos by (intro takeWhile_nth) (simp add: group_at_def)
  moreover have "i + (length ?G - 1) = ?j - 1" using pos by linarith
  then have "drop i ?rs ! (length ?G - 1) = ?rs ! (?j - 1)"
    using assms(3) by simp
  ultimately show last: "cr_left (?rs ! (?j - 1)) = cr_left (?rs ! i)" by simp
  show "group_start ts ?j"
    unfolding group_start_def
  proof (intro conjI allI impI)
    show "?j < num_records ts" by (rule assms(3))
  next
    fix q assume "q < ?j"
    then have "cr_left (?rs ! q) \<le> cr_left (?rs ! (?j - 1))"
      using sorted_lefts [OF assms(1), of q "?j - 1"] assms(3) by simp
    then show "cr_left (?rs ! q) < cr_left (?rs ! ?j)" using last lt by simp
  qed
qed

subsection \<open>Room in the arenas\<close>

lemma length_filter_mono:
  "(\<And>x. x \<in> set xs \<Longrightarrow> P x \<Longrightarrow> Q x) \<Longrightarrow> length (filter P xs) \<le> length (filter Q xs)"
  by (induction xs) auto

lemma group_covering:
  assumes "records_valid ts" "r \<in> set (group_at ts i)"
  shows "r \<in> set (covering ts (unat (cr_left (records_of ts ! i))))"
proof -
  from group_member [OF assms(2)] have l: "cr_left r = cr_left (records_of ts ! i)"
    and m: "r \<in> set (records_of ts)" by simp_all
  from m assms(1) have "cr_left r < cr_right r" by (auto simp: records_valid_def)
  then show ?thesis using l m by (simp add: covering_def word_less_nat_alt)
qed

lemma group_le_covering:
  assumes "records_valid ts"
  shows "length (group_at ts i) \<le> length (covering ts (unat (cr_left (records_of ts ! i))))"
proof -
  let ?x = "unat (cr_left (records_of ts ! i))"
  let ?Q = "\<lambda>r. unat (cr_left r) \<le> ?x \<and> ?x < unat (cr_right r)"
  have "filter ?Q (group_at ts i) = group_at ts i"
    using group_covering [OF assms, of _ i] by (simp add: covering_def filter_id_conv)
  moreover have "covering ts ?x =
      filter ?Q (take i (records_of ts)) @ filter ?Q (group_at ts i) @
      filter ?Q (dropWhile (\<lambda>r. cr_left r = cr_left (records_of ts ! i)) (drop i (records_of ts)))"
    unfolding covering_def by (subst group_split [of ts i]) simp
  ultimately show ?thesis by simp
qed

lemma crossing_le_covering:
  assumes "group_start ts i"
  shows "length (filter (\<lambda>r. cr_left (records_of ts ! i) \<le> cr_right r) (take i (records_of ts)))
           \<le> length (covering ts (unat (cr_left (records_of ts ! i)) - 1))"
proof -
  let ?rs = "records_of ts"
  let ?c = "cr_left (?rs ! i)"
  let ?Q = "\<lambda>r. unat (cr_left r) \<le> unat ?c - 1 \<and> unat ?c - 1 < unat (cr_right r)"
  have "length (filter (\<lambda>r. ?c \<le> cr_right r) (take i ?rs)) \<le> length (filter ?Q (take i ?rs))"
  proof (rule length_filter_mono)
    fix r assume "r \<in> set (take i ?rs)" "?c \<le> cr_right r"
    then obtain q where "q < i" "r = ?rs ! q"
      using assms by (auto simp: in_set_conv_nth group_start_def)
    then have "cr_left r < ?c" using assms by (simp add: group_start_def)
    then show "?Q r" using \<open>?c \<le> cr_right r\<close>
      unfolding word_less_nat_alt word_le_nat_alt by linarith
  qed
  also have "\<dots> \<le> length (filter ?Q (take i ?rs)) + length (filter ?Q (drop i ?rs))" by simp
  also have "\<dots> = length (filter ?Q (take i ?rs @ drop i ?rs))" by (simp only: filter_append length_append)
  finally show ?thesis by (simp add: covering_def)
qed

lemma covering_count:
  assumes "records_ok ts" "i < num_records ts" "x \<le> unat (cr_left (records_of ts ! i))"
  shows "length (covering ts x) = unat (sample_size ts) - 1"
proof -
  have "records_of ts ! i \<in> set (records_of ts)" using assms(2) by simp
  then have "cr_left (records_of ts ! i) < cr_right (records_of ts ! i)"
    "cr_right (records_of ts ! i) \<le> num_loci ts"
    using assms(1) by (simp_all add: records_ok_def records_valid_def)
  then have "x < unat (num_loci ts)"
    using assms(3) by (simp add: word_less_nat_alt word_le_nat_alt)
  then show ?thesis using assms(1) by (simp add: records_ok_def local_trees_def)
qed

text \<open>
  The tree-node arena holds \<open>3 * sample_size\<close> nodes: at the start of a tree, the records
  still active and twice the records of the tree fit.
\<close>

lemma tree_node_room:
  assumes "records_ok ts" "group_start ts i"
  shows "length (filter (\<lambda>r. cr_left (records_of ts ! i) \<le> cr_right r) (take i (records_of ts)))
           + 2 * length (group_at ts i) \<le> 3 * unat (sample_size ts)"
proof -
  from assms(2) have i: "i < num_records ts" by (simp add: group_start_def)
  have val: "records_valid ts" using assms(1) by (simp add: records_ok_def)
  from group_le_covering [OF val, of i] covering_count [OF assms(1) i, of "unat (cr_left (records_of ts ! i))"]
  have "length (group_at ts i) \<le> unat (sample_size ts) - 1" by simp
  moreover from crossing_le_covering [OF assms(2)]
    covering_count [OF assms(1) i, of "unat (cr_left (records_of ts ! i)) - 1"]
  have "length (filter (\<lambda>r. cr_left (records_of ts ! i) \<le> cr_right r) (take i (records_of ts)))
      \<le> unat (sample_size ts) - 1" by simp
  ultimately show ?thesis by linarith
qed

text \<open>The list arena and the AVL arena hold \<open>sample_size\<close> objects: the keys of a tree fit.\<close>

lemma key_room:
  assumes "records_ok ts" "group_start ts i"
  shows "card (cr_right ` (set (filter (\<lambda>r. cr_left (records_of ts ! i) \<le> cr_right r)
                                  (take i (records_of ts))) \<union> set (group_at ts i)))
           \<le> unat (sample_size ts)"
proof -
  let ?rs = "records_of ts"
  let ?c = "cr_left (?rs ! i)"
  let ?C = "covering ts (unat ?c)"
  from assms(2) have i: "i < num_records ts" by (simp add: group_start_def)
  have val: "records_valid ts" using assms(1) by (simp add: records_ok_def)
  have sub: "cr_right ` (set (filter (\<lambda>r. ?c \<le> cr_right r) (take i ?rs)) \<union> set (group_at ts i))
      \<subseteq> insert ?c (cr_right ` set ?C)"
  proof
    fix k assume "k \<in> cr_right ` (set (filter (\<lambda>r. ?c \<le> cr_right r) (take i ?rs)) \<union> set (group_at ts i))"
    then obtain r where k: "k = cr_right r"
      and r: "r \<in> set (filter (\<lambda>r. ?c \<le> cr_right r) (take i ?rs)) \<or> r \<in> set (group_at ts i)"
      by auto
    from r show "k \<in> insert ?c (cr_right ` set ?C)"
    proof
      assume a: "r \<in> set (filter (\<lambda>r. ?c \<le> cr_right r) (take i ?rs))"
      then obtain q where "q < i" "r = ?rs ! q"
        using i by (auto simp: in_set_conv_nth)
      then have l: "cr_left r < ?c" using assms(2) by (simp add: group_start_def)
      have m: "r \<in> set ?rs" using a by (auto dest: in_set_takeD)
      show ?thesis
      proof (cases "cr_right r = ?c")
        case True
        then show ?thesis using k by simp
      next
        case False
        then have "?c < cr_right r" using a by (auto simp: less_le)
        then have "r \<in> set ?C" using l m by (simp add: covering_def word_less_nat_alt)
        then show ?thesis using k by simp
      qed
    next
      assume "r \<in> set (group_at ts i)"
      then have "r \<in> set ?C" by (rule group_covering [OF val])
      then show ?thesis using k by simp
    qed
  qed
  have "card (insert ?c (cr_right ` set ?C)) \<le> Suc (card (cr_right ` set ?C))"
    by (simp add: card_insert_if)
  also have "card (cr_right ` set ?C) \<le> length ?C"
    by (meson card_image_le card_length le_trans List.finite_set)
  finally have "card (insert ?c (cr_right ` set ?C)) \<le> Suc (length ?C)" by simp
  moreover have "1 \<le> length ?C"
    using group_le_covering [OF val, of i] group_nonempty [OF i]
    by (cases "group_at ts i") simp_all
  moreover have "length ?C = unat (sample_size ts) - 1"
    using covering_count [OF assms(1) i, of "unat ?c"] by simp
  ultimately have "card (insert ?c (cr_right ` set ?C)) \<le> unat (sample_size ts)" by linarith
  moreover have "card (cr_right ` (set (filter (\<lambda>r. ?c \<le> cr_right r) (take i ?rs)) \<union> set (group_at ts i)))
      \<le> card (insert ?c (cr_right ` set ?C))"
    by (rule card_mono [OF _ sub]) simp
  ultimately show ?thesis by linarith
qed

section \<open>One call of the iterator at the start of a tree\<close>

text \<open>
  The first part of \<open>tree_diff_iterator_next_tree\<close> on a tree that represents \<open>Sb\<close>, when the
  records of \<open>Sb\<close> that end before the current left coordinate all end at \<open>lo\<close>: the records
  that are left are those that reach the current left coordinate.
\<close>

lemma retire_step:
  assumes "current_left self \<noteq> 0" "iterator_ok self"
    and "represents (active_nodes self) Sb"
    and "current_left self \<in> cr_right ` set Sb"
    and "\<forall>r\<in>set Sb. cr_right r < current_left self \<longrightarrow> cr_right r = lo"
  shows "\<exists>out s0. retire self = (Ret0, out, s0) \<and> iterator_ok s0 \<and> same_position self s0 \<and>
           nodes_in s0 = [] \<and>
           represents (active_nodes s0) (filter (\<lambda>r. current_left self \<le> cr_right r) Sb)"
proof -
  let ?t = "active_nodes self" and ?c = "current_left self"
  let ?s1 = "(free_tree_nodes self (nodes_in self))\<lparr>nodes_in := []\<rparr>"
  note srch = represents_search [OF assms(3,4)]
  have ok: "avl_ok ?t" and keys: "fst ` set ?t = cr_right ` set Sb"
    using assms(3) by (simp_all add: represents_def)
  have key: "?c \<in> fst ` set ?t" using keys assms(4) by simp
  show ?thesis
  proof (cases "avl_prev ?t ?c")
    case None
    have r: "retire self =
        (Ret0, map node_of (filter (\<lambda>r. cr_right r = ?c) Sb), ?s1)"
      using assms(1) srch None by (simp add: retire_def free_tree_nodes_eq)
    from avl_prev_None [OF ok key None] keys have "\<forall>r\<in>set Sb. ?c \<le> cr_right r"
      by (metis imageE imageI)
    then have "filter (\<lambda>r. ?c \<le> cr_right r) Sb = Sb" by (simp add: filter_id_conv)
    then show ?thesis
      using retire_any [OF assms(2) r] r assms(3) by (simp add: free_tree_nodes_eq)
  next
    case (Some x)
    let ?s2 = "tree_diff_iterator_free_avl_node
        ((free_tree_nodes ?s1 (snd x))\<lparr>active_nodes := avl_unlink_node ?t (fst x)\<rparr>)"
    have r: "retire self =
        (Ret0, map node_of (filter (\<lambda>r. cr_right r = ?c) Sb), ?s2)"
      using assms(1) srch Some by (simp add: retire_def free_tree_nodes_eq Let_def)
    from avl_prev_Some [OF Some] ok have x: "x \<in> set ?t" "fst x < ?c" by simp_all
    then have "fst x \<in> cr_right ` set Sb" using keys by (metis imageI)
    then have lo: "fst x = lo" using assms(5) x(2) by auto
    have "filter (\<lambda>r. cr_right r \<noteq> fst x) Sb = filter (\<lambda>r. ?c \<le> cr_right r) Sb"
    proof (rule filter_cong [OF refl])
      fix r assume "r \<in> set Sb"
      then show "(cr_right r \<noteq> fst x) = (?c \<le> cr_right r)"
        using assms(5) lo x(2) by (cases "cr_right r < ?c") auto
    qed
    with represents_unlink [OF assms(3) x(1)]
    have "represents (avl_unlink_node ?t (fst x)) (filter (\<lambda>r. ?c \<le> cr_right r) Sb)" by simp
    then show ?thesis
      using retire_any [OF assms(2) r] r
      by (simp add: free_tree_nodes_eq tree_diff_iterator_free_avl_node_def)
  qed
qed

text \<open>
  The iterator before the call that emits the tree starting at record \<open>i\<close>: the tree of
  active lists holds the records before \<open>i\<close> that reach the left coordinate of the tree
  before.
\<close>

definition at_group :: "tree_sequence_t \<Rightarrow> tree_diff_iterator_t \<Rightarrow> nat \<Rightarrow> bool" where
  "at_group ts self i \<longleftrightarrow>
     iterator_ok self \<and> tree_sequence self = ts \<and> it_num_records self = num_records ts \<and>
     next_record_index self = i \<and> group_start ts i \<and>
     current_left self = cr_left (records_of ts ! i) \<and>
     (if i = 0 then nodes_in self = [] \<and> active_nodes self = []
      else represents (active_nodes self)
             (filter (\<lambda>r. cr_left (records_of ts ! (i - 1)) \<le> cr_right r)
                (take i (records_of ts))))"

lemma retire_at_group:
  assumes "records_ok ts" "at_group ts self i"
  shows "\<exists>out s0. retire self = (Ret0, out, s0) \<and> iterator_ok s0 \<and> same_position self s0 \<and>
           nodes_in s0 = [] \<and>
           represents (active_nodes s0)
             (filter (\<lambda>r. cr_left (records_of ts ! i) \<le> cr_right r) (take i (records_of ts)))"
proof (cases "i = 0")
  case True
  then have "current_left self = 0"
    using assms first_left_is_zero [OF assms(1)] by (simp add: at_group_def group_start_def)
  then have "retire self = (Ret0, [], self)" by (simp add: retire_def)
  then show ?thesis
    using assms(2) True by (simp add: at_group_def same_position_def represents_empty)
next
  case False
  let ?rs = "records_of ts"
  let ?c = "cr_left (?rs ! i)" and ?lo = "cr_left (?rs ! (i - 1))"
  let ?Sb = "filter (\<lambda>r. ?lo \<le> cr_right r) (take i ?rs)"
  from assms(2) False have gs: "group_start ts i" and ok: "iterator_ok self"
    and c: "current_left self = ?c" and rep: "represents (active_nodes self) ?Sb"
    by (simp_all add: at_group_def)
  from gs False have lo: "?lo < ?c" by (simp add: group_start_def)
  then have nz: "current_left self \<noteq> 0" using c by (auto simp: word_less_nat_alt)
  from current_left_is_right [OF assms(1) gs] False
  obtain r where r: "r \<in> set (take i ?rs)" "cr_right r = ?c" by auto
  then have "r \<in> set ?Sb" using lo by simp
  then have mem: "current_left self \<in> cr_right ` set ?Sb" using r(2) c by (metis imageI)
  have below: "\<forall>r\<in>set ?Sb. cr_right r < current_left self \<longrightarrow> cr_right r = ?lo"
    using rights_below_current_left [OF assms(1) gs] False c by (auto intro: antisym)
  have "filter (\<lambda>r. ?c \<le> cr_right r) ?Sb = filter (\<lambda>r. ?c \<le> cr_right r) (take i ?rs)"
    using lo by (auto intro: filter_cong)
  with retire_step [OF nz ok rep mem below] c show ?thesis by simp
qed

lemma iterator_ok_current_left [simp]:
  "iterator_ok (self\<lparr>current_left := c\<rparr>) = iterator_ok self"
  by (simp add: iterator_ok_def)

text \<open>
  The call at the start of a tree returns \<open>1\<close>: its span reaches to the next left coordinate,
  or to \<open>num_loci\<close> after the last record, and its \<open>in\<close> list holds the records of the tree.
\<close>

lemma next_tree_step:
  assumes "records_ok ts" "3 * unat (sample_size ts) < 2 ^ 32" "at_group ts self i"
    and "j = i + length (group_at ts i)"
  shows "\<exists>out self'. tree_diff_iterator_next_tree self p =
           (Ret1,
            ((if j < num_records ts then cr_left (records_of ts ! j) else num_loci ts)
               - cr_left (records_of ts ! i),
             out, map node_of (group_at ts i)),
            self') \<and>
         iterator_ok self' \<and> same_store self self' \<and>
         current_breakpoint_index self' = current_breakpoint_index self \<and>
         next_breakpoint self' = next_breakpoint self \<and>
         (if j < num_records ts then at_group ts self' j else at_end self')"
proof -
  let ?rs = "records_of ts" and ?G = "group_at ts i"
  let ?c = "cr_left (?rs ! i)"
  let ?S = "filter (\<lambda>r. ?c \<le> cr_right r) (take i ?rs)"
  obtain p_length p_nodes_out p_nodes_in where p: "p = (p_length, p_nodes_out, p_nodes_in)"
    by (cases p) auto
  from assms(3) have gs: "group_start ts i" and c: "current_left self = ?c"
    and ts: "tree_sequence self = ts" and n: "it_num_records self = num_records ts"
    and nri: "next_record_index self = i"
    by (simp_all add: at_group_def)
  from gs have i: "i < num_records ts" by (simp add: group_start_def)
  have alloc: "store_allocated ts" and val: "records_valid ts" and srt: "records_sorted ts"
    using assms(1) by (simp_all add: records_ok_def)
  from retire_at_group [OF assms(1,3)]
  obtain out s0 where r: "retire self = (Ret0, out, s0)" and ok0: "iterator_ok s0"
    and pos: "same_position self s0" and in0: "nodes_in s0 = []"
    and rep0: "represents (active_nodes s0) ?S"
    by blast
  have c0: "current_left s0 = ?c" and ts0: "tree_sequence s0 = ts"
    and n0: "it_num_records s0 = length ?rs" and nri0: "next_record_index s0 = i"
    using pos c ts n nri by (simp_all add: same_position_def)
  have G: "?G = takeWhile (\<lambda>r. cr_left r = current_left s0) (drop i ?rs)"
    by (simp add: group_at_def c0)
  have "unat (3 * sample_size ts) = 3 * unat (sample_size ts)"
    using assms(2) by (simp add: unat_word_ariths)
  moreover have "avl_nodes (active_nodes s0) = length ?S"
    using rep0 by (simp add: represents_def)
  ultimately have "oh_top (tree_node_heap s0) + length ?S = 3 * unat (sample_size ts)"
    using ok0 in0 ts0 by (simp add: iterator_ok_def)
  then have room: "2 * length ?G \<le> oh_top (tree_node_heap s0)"
    using tree_node_room [OF assms(1) gs] by linarith
  note keys = key_room [OF assms(1) gs]
  have i': "i < length ?rs" using i by simp
  from absorb_group [OF alloc refl G ok0 ts0 n0 nri0 i' rep0 room keys, of zero_record]
  obtain s1 where a: "absorb_records s0 zero_record =
        (Ret0, if i + length ?G < length ?rs then ?rs ! (i + length ?G) else last ?rs, s1)"
    and ok1: "iterator_ok s1" and st1: "same_store s0 s1" and c1: "current_left s1 = ?c"
    and cbi1: "current_breakpoint_index s1 = current_breakpoint_index s0"
    and nb1: "next_breakpoint s1 = next_breakpoint s0"
    and nri1: "next_record_index s1 = i + length ?G"
    and in1: "nodes_in s1 = map node_of ?G"
    and rep1: "represents (active_nodes s1) (?S @ ?G)"
    using c0 in0 by auto
  have n1: "it_num_records s1 = num_records ts" and ts1: "tree_sequence s1 = ts"
    using st1 n0 ts0 by (simp_all add: same_store_def)
  have jle: "j \<le> num_records ts" using group_length [of i ts] i assms(4) by simp
  have store: "same_store self s1"
    using pos st1 by (simp add: same_position_def same_store_def)
  have bp: "current_breakpoint_index s1 = current_breakpoint_index self"
    "next_breakpoint s1 = next_breakpoint self"
    using pos cbi1 nb1 by (simp_all add: same_position_def)
  show ?thesis
  proof (cases "j < num_records ts")
    case True
    let ?self' = "s1\<lparr>current_left := cr_left (?rs ! j)\<rparr>"
    have call: "tree_diff_iterator_next_tree self p =
        (Ret1, (cr_left (?rs ! j) - ?c, out, map node_of ?G), ?self')"
      unfolding p next_tree_retire
      using r a True i nri0 n0 nri1 n1 c1 in1 assms(4) by simp
    note nx = next_group_start [OF srt i True [unfolded assms(4)]]
    have "filter (\<lambda>r. ?c \<le> cr_right r) ?G = ?G"
    proof -
      have "\<forall>r\<in>set ?G. ?c \<le> cr_right r"
      proof
        fix r assume g: "r \<in> set ?G"
        from group_member [OF g] val have "cr_left r = ?c" "cr_left r < cr_right r"
          by (auto simp: records_valid_def)
        then show "?c \<le> cr_right r" by simp
      qed
      then show ?thesis by (simp add: filter_id_conv)
    qed
    then have "filter (\<lambda>r. cr_left (?rs ! (j - 1)) \<le> cr_right r) (take j ?rs) = ?S @ ?G"
      using nx(2) by (simp add: assms(4) take_group)
    then have "at_group ts ?self' j"
      using ok1 ts1 n1 nri1 nx(1) rep1 assms(4) group_nonempty [OF i]
      by (simp add: at_group_def)
    then show ?thesis
      using call True ok1 store bp by (simp add: same_store_def)
  next
    case False
    then have jN: "j = num_records ts" using jle by simp
    have pos: "0 < num_records ts" using i by simp
    let ?self' = "s1\<lparr>current_left := cr_left (last ?rs)\<rparr>"
    have call: "tree_diff_iterator_next_tree self p =
        (Ret1, (num_loci ts - ?c, out, map node_of ?G), ?self')"
      unfolding p next_tree_retire
      using r a i nri0 n0 nri1 n1 c1 in1 jN assms(4) last_right_is_num_loci [OF assms(1) pos]
      by simp
    have lastG: "last ?rs \<in> set ?G"
    proof -
      have "?rs = take i ?rs @ ?G" using take_group [of i ts] jN assms(4) by simp
      then have "last ?rs = last (take i ?rs @ ?G)" by simp
      also have "\<dots> = last ?G" using group_nonempty [OF i] by simp
      finally show ?thesis using group_nonempty [OF i] by simp
    qed
    then have cl: "cr_left (last ?rs) = ?c" by (rule group_member)
    have "at_end ?self'"
    proof (cases "i = 0")
      case True
      then show ?thesis
        using cl first_left_is_zero [OF assms(1) pos] nri1 n1 jN assms(4)
        by (simp add: at_end_def)
    next
      case nz: False
      from current_left_is_right [OF assms(1) gs] nz
      obtain r where "r \<in> set (take i ?rs)" "cr_right r = ?c" by auto
      then have "r \<in> set (?S @ ?G)" "cr_right r = ?c" by simp_all
      then have "?c \<in> cr_right ` set (?S @ ?G)" by (metis imageI)
      from represents_search [OF rep1 this]
      show ?thesis using cl nri1 n1 jN assms(4) by (simp add: at_end_def)
    qed
    then show ?thesis
      using call False ok1 store bp by (simp add: same_store_def)
  qed
qed

section \<open>A run in \<open>DISTINCT_TREES\<close> mode\<close>

text \<open>The differences of consecutive elements of a list of coordinates.\<close>

fun diffs :: "u32 list \<Rightarrow> u32 list" where
  "diffs (a # b # xs) = (b - a) # diffs (b # xs)"
| "diffs [a] = []"
| "diffs [] = []"

text \<open>The distinct left coordinates of the records from record \<open>i\<close> on, in order.\<close>

definition lefts_from :: "tree_sequence_t \<Rightarrow> nat \<Rightarrow> u32 list" where
  "lefts_from ts i = remdups_adj (map cr_left (drop i (records_of ts)))"

lemma lefts_from_group:
  assumes "records_sorted ts" "i < num_records ts"
  shows "lefts_from ts i =
           cr_left (records_of ts ! i) # lefts_from ts (i + length (group_at ts i))"
proof -
  let ?rs = "records_of ts" and ?G = "group_at ts i"
  let ?c = "cr_left (?rs ! i)"
  let ?rest = "dropWhile (\<lambda>r. cr_left r = ?c) (drop i ?rs)"
  have G: "map cr_left ?G = replicate (length ?G) ?c"
  proof (rule nth_equalityI)
    show "length (map cr_left ?G) = length (replicate (length ?G) ?c)" by simp
  next
    fix k assume k: "k < length (map cr_left ?G)"
    then have "?G ! k \<in> set ?G" by simp
    then have "cr_left (?G ! k) = ?c" by (rule group_member)
    then show "map cr_left ?G ! k = replicate (length ?G) ?c ! k" using k by simp
  qed
  have ne: "?G \<noteq> []" by (rule group_nonempty [OF assms(2)])
  have d: "drop (i + length ?G) ?rs = ?rest"
  proof -
    have "drop (i + length ?G) ?rs = drop (length ?G) (drop i ?rs)" by (simp add: add.commute)
    also have "\<dots> = ?rest" by (subst group_drop [of i ts]) simp
    finally show ?thesis .
  qed
  have hd: "?rest \<noteq> [] \<Longrightarrow> cr_left (hd ?rest) \<noteq> ?c"
    using hd_dropWhile [of "\<lambda>r. cr_left r = ?c" "drop i ?rs"] by simp
  have "map cr_left (drop i ?rs) = replicate (length ?G) ?c @ map cr_left ?rest"
    by (subst group_drop [of i ts]) (simp add: G)
  moreover have "remdups_adj (replicate (length ?G) ?c @ map cr_left ?rest) =
      remdups_adj (replicate (length ?G) ?c) @ remdups_adj (map cr_left ?rest)"
  proof (rule remdups_adj_append')
    show "replicate (length ?G) ?c = [] \<or> map cr_left ?rest = [] \<or>
        last (replicate (length ?G) ?c) \<noteq> hd (map cr_left ?rest)"
    proof (cases "?rest = []")
      case True
      then show ?thesis by simp
    next
      case False
      from hd [OF False] have "hd (map cr_left ?rest) \<noteq> ?c" by (simp add: hd_map [OF False])
      moreover have "last (replicate (length ?G) ?c) = ?c" using ne by simp
      ultimately show ?thesis by simp
    qed
  qed
  ultimately show ?thesis
    using ne by (simp add: lefts_from_def d remdups_adj_replicate)
qed

lemma lefts_from_end: "num_records ts \<le> i \<Longrightarrow> lefts_from ts i = []"
  by (simp add: lefts_from_def)

lemma next_distinct:
  "flags self AND all_bp = 0 \<Longrightarrow>
     tree_diff_iterator_next all_bp self p = tree_diff_iterator_next_tree self p"
  by (simp add: tree_diff_iterator_next_def)

text \<open>
  From the start of a tree on, the calls return \<open>1\<close> once for every distinct left coordinate
  that remains and then \<open>0\<close>, and the spans are the differences from each left coordinate to
  the next, the last one to \<open>num_loci\<close>.
\<close>

lemma distinct_run:
  assumes "records_ok ts" "3 * unat (sample_size ts) < 2 ^ 32"
    and "at_group ts self i" "flags self AND all_bp = 0" "num_records ts - i < fuel"
  shows "\<exists>calls self'. iterate all_bp fuel self p = (calls, self') \<and>
           map fst calls = replicate (length (lefts_from ts i)) Ret1 @ [Ret0] \<and>
           map (\<lambda>c. fst (snd c)) (butlast calls) = diffs (lefts_from ts i @ [num_loci ts])"
  using assms(3-)
proof (induction fuel arbitrary: self i p)
  case 0
  then show ?case by simp
next
  case (Suc fuel)
  let ?rs = "records_of ts"
  let ?j = "i + length (group_at ts i)"
  let ?c = "cr_left (?rs ! i)"
  from Suc.prems(1) have i: "i < num_records ts" by (simp add: at_group_def group_start_def)
  have srt: "records_sorted ts" using assms(1) by (simp add: records_ok_def)
  note lf = lefts_from_group [OF srt i]
  from next_tree_step [OF assms(1,2) Suc.prems(1) refl, of p]
  obtain out self1 where
    call: "tree_diff_iterator_next_tree self p =
      (Ret1, ((if ?j < num_records ts then cr_left (?rs ! ?j) else num_loci ts) - ?c,
              out, map node_of (group_at ts i)), self1)"
    and ok1: "iterator_ok self1" and st1: "same_store self self1"
    and nxt: "if ?j < num_records ts then at_group ts self1 ?j else at_end self1"
    by blast
  let ?p1 = "((if ?j < num_records ts then cr_left (?rs ! ?j) else num_loci ts) - ?c,
              out, map node_of (group_at ts i))"
  have fl1: "flags self1 AND all_bp = 0" using st1 Suc.prems(2) by (simp add: same_store_def)
  have unfold: "iterate all_bp (Suc fuel) self p =
      (case iterate all_bp fuel self1 ?p1 of (calls, self'') \<Rightarrow> ((Ret1, ?p1) # calls, self''))"
    using call by (simp add: next_distinct [OF Suc.prems(2)])
  show ?case
  proof (cases "?j < num_records ts")
    case True
    then have g: "at_group ts self1 ?j" using nxt by simp
    have "num_records ts - ?j < fuel"
      using Suc.prems(3) True group_nonempty [OF i] by (cases "group_at ts i") simp_all
    from Suc.IH [OF g fl1 this, of ?p1]
    obtain calls self' where it: "iterate all_bp fuel self1 ?p1 = (calls, self')"
      and rets: "map fst calls = replicate (length (lefts_from ts ?j)) Ret1 @ [Ret0]"
      and sp: "map (\<lambda>c. fst (snd c)) (butlast calls) = diffs (lefts_from ts ?j @ [num_loci ts])"
      by blast
    from rets have ne: "calls \<noteq> []" by auto
    obtain rest where lj: "lefts_from ts ?j = cr_left (?rs ! ?j) # rest"
      using lefts_from_group [OF srt True] by simp
    show ?thesis
      using unfold it rets sp ne True lf lj by simp
  next
    case False
    then have e: "at_end self1" using nxt by simp
    have lj: "lefts_from ts ?j = []" using False by (simp add: lefts_from_end)
    from Suc.prems(3) i obtain f where f: "fuel = Suc f" by (cases fuel) simp_all
    from next_tree_at_end [OF ok1 e, of ?p1]
    obtain p2 self2 where "tree_diff_iterator_next_tree self1 ?p1 = (Ret0, p2, self2)" by blast
    then have "iterate all_bp fuel self1 ?p1 = ([(Ret0, p2)], self2)"
      using f by (simp add: next_distinct [OF fl1])
    then show ?thesis
      using unfold False lf lj by simp
  qed
qed

text \<open>The spans of the steps a run emitted, and the left edges they give from \<open>x\<close> on.\<close>

definition emitted_spans :: "(ret \<times> out_params) list \<Rightarrow> u32 list" where
  "emitted_spans calls = map (\<lambda>c. fst (snd c)) (filter (\<lambda>c. fst c = Ret1) calls)"

fun left_edges :: "u32 \<Rightarrow> u32 list \<Rightarrow> u32 list" where
  "left_edges x [] = []"
| "left_edges x (s # ss) = x # left_edges (x + s) ss"

lemma rets_split:
  assumes "map fst calls = replicate k Ret1 @ [Ret0]"
  shows "calls \<noteq> []" "map fst (butlast calls) = replicate k Ret1" "fst (last calls) = Ret0"
proof -
  from assms show ne: "calls \<noteq> []" by auto
  have "butlast (map fst calls) = replicate k Ret1" by (simp add: assms)
  then show "map fst (butlast calls) = replicate k Ret1" by (simp add: map_butlast)
  have "last (map fst calls) = Ret0" by (simp add: assms)
  then show "fst (last calls) = Ret0" using ne by (simp add: last_map)
qed

lemma emitted_spans_butlast:
  assumes "map fst calls = replicate k Ret1 @ [Ret0]"
  shows "emitted_spans calls = map (\<lambda>c. fst (snd c)) (butlast calls)"
proof -
  note s = rets_split [OF assms]
  from s(1) have c: "calls = butlast calls @ [last calls]" by simp
  have "set (map fst (butlast calls)) \<subseteq> {Ret1}"
    unfolding s(2) by (simp add: set_replicate_conv_if)
  then have "filter (\<lambda>c. fst c = Ret1) (butlast calls) = butlast calls"
    by (auto simp: filter_id_conv)
  moreover have "fst (last calls) \<noteq> Ret1" using s(3) by simp
  ultimately
  have "filter (\<lambda>c. fst c = Ret1) (butlast calls @ [last calls]) = butlast calls"
    by simp
  then show ?thesis using c by (simp add: emitted_spans_def)
qed

lemma sum_diffs:
  "sorted (a # xs) \<Longrightarrow>
     sum_list (map unat (diffs (a # xs))) = unat (last (a # xs)) - unat a"
proof (induction xs arbitrary: a)
  case Nil
  then show ?case by simp
next
  case (Cons b xs)
  then have ab: "a \<le> b" and s: "sorted (b # xs)" and bl: "b \<le> last (b # xs)" by auto
  have 1: "unat (b - a) = unat b - unat a" using ab by (simp add: unat_sub)
  have 2: "sum_list (map unat (diffs (b # xs))) = unat (last (b # xs)) - unat b"
    by (rule Cons.IH [OF s])
  have 3: "last (a # b # xs) = last (b # xs)" by simp
  have "unat a \<le> unat b" "unat b \<le> unat (last (b # xs))"
    using ab bl by (simp_all add: word_le_nat_alt)
  then show ?case unfolding diffs.simps list.map sum_list.Cons 1 2 3 by linarith
qed

lemma left_edges_diffs: "left_edges a (diffs (a # xs)) = butlast (a # xs)"
  by (induction xs arbitrary: a) simp_all

lemma lefts_from_0:
  assumes "records_ok ts" "0 < num_records ts"
  shows "sorted (lefts_from ts 0 @ [num_loci ts])"
    and "\<exists>xs. lefts_from ts 0 = 0 # xs"
    and "set (lefts_from ts 0) = cr_left ` set (records_of ts)"
proof -
  have srt: "records_sorted ts" and val: "records_valid ts"
    using assms(1) by (simp_all add: records_ok_def)
  show "set (lefts_from ts 0) = cr_left ` set (records_of ts)"
    by (simp add: lefts_from_def)
  then have "\<forall>x\<in>set (lefts_from ts 0). x \<le> num_loci ts"
    using val by (auto simp: records_valid_def)
  moreover have "sorted (lefts_from ts 0)"
    using srt by (simp add: lefts_from_def records_sorted_def sorted_remdups_adj)
  ultimately show "sorted (lefts_from ts 0 @ [num_loci ts])"
    by (simp add: sorted_append)
  show "\<exists>xs. lefts_from ts 0 = 0 # xs"
    using lefts_from_group [OF srt assms(2)] first_left_is_zero [OF assms] by simp
qed

lemma invariants_records:
  assumes "data_model_invariants ts"
  shows "records_ok ts" "0 < num_records ts"
proof -
  show "records_ok ts" using assms by (simp add: data_model_invariants_def records_ok_def)
  have "cr_left ` set (records_of ts) \<union> cr_right ` set (records_of ts) \<noteq> {}"
    using assms by (auto simp: data_model_invariants_def breakpoints_valid_def split: option.splits)
  then have "records_of ts \<noteq> []" by auto
  then show "0 < num_records ts" by (simp add: records_of_def)
qed

lemma alloc_at_group:
  assumes "records_ok ts" "0 < num_records ts"
    and "tree_diff_iterator_alloc mem self0 ts flgs = (Ret0, it0, mem0)"
  shows "at_group ts it0 0"
  using alloc_ok [OF assms(3)] first_left_is_zero [OF assms(1,2)] assms(2)
  by (simp add: at_group_def group_start_def)

text \<open>
  The span partition where the arena's capacity does not wrap. For every store that
  satisfies the invariants of the data model and whose \<open>3 * sample_size\<close> is below
  \<open>2 ^ 32\<close>, a run of \<open>tree_diff_iterator_next\<close> in \<open>DISTINCT_TREES\<close>
  mode (the flag \<open>MSP_ALL_BREAKPOINTS\<close> is not set), on an iterator set up by
  \<open>tree_diff_iterator_alloc\<close> and given more calls than there are records, ends with a call
  that returns \<open>0\<close> after calls that all return \<open>1\<close>; the spans of these steps add up to
  \<open>num_loci\<close>, and their left edges, which start at \<open>0\<close>, are exactly the left coordinates
  of the records.
\<close>

theorem distinct_trees_span_partition:
  assumes "data_model_invariants ts" "3 * unat (sample_size ts) < 2 ^ 32"
    and "flgs AND MSP_ALL_BREAKPOINTS = 0"
    and "tree_diff_iterator_alloc mem self0 ts flgs = (Ret0, it0, mem0)"
    and "num_records ts < fuel"
  shows "fst (last (fst (iterate MSP_ALL_BREAKPOINTS fuel it0 p))) = Ret0 \<and>
         fst ` set (butlast (fst (iterate MSP_ALL_BREAKPOINTS fuel it0 p))) = {Ret1} \<and>
         sum_list (map unat (emitted_spans (fst (iterate MSP_ALL_BREAKPOINTS fuel it0 p)))) =
           unat (num_loci ts) \<and>
         set (left_edges 0 (emitted_spans (fst (iterate MSP_ALL_BREAKPOINTS fuel it0 p)))) =
           cr_left ` set (records_of ts)"
proof -
  note r = invariants_records [OF assms(1)]
  note g = alloc_at_group [OF r assms(4)]
  have fl: "flags it0 AND MSP_ALL_BREAKPOINTS = 0"
    using alloc_ok [OF assms(4)] assms(3) by simp
  from distinct_run [OF r(1) assms(2) g fl, of fuel p] assms(5)
  obtain calls self' where it: "iterate MSP_ALL_BREAKPOINTS fuel it0 p = (calls, self')"
    and rets: "map fst calls = replicate (length (lefts_from ts 0)) Ret1 @ [Ret0]"
    and sp: "map (\<lambda>c. fst (snd c)) (butlast calls) = diffs (lefts_from ts 0 @ [num_loci ts])"
    by auto
  note l = lefts_from_0 [OF r]
  from l(2) obtain xs where xs: "lefts_from ts 0 = 0 # xs" by blast
  from emitted_spans_butlast [OF rets] sp
  have es: "emitted_spans calls = diffs (0 # xs @ [num_loci ts])" by (simp add: xs)
  note s = rets_split [OF rets]
  have "set (map fst (butlast calls)) = {Ret1}"
    unfolding s(2) xs by (simp add: set_replicate_conv_if)
  then have "fst ` set (butlast calls) = {Ret1}" by simp
  moreover note s(3)
  moreover have "sum_list (map unat (emitted_spans calls)) = unat (num_loci ts)"
    using sum_diffs [of 0 "xs @ [num_loci ts]"] l(1) by (simp add: es xs)
  moreover have "set (left_edges 0 (emitted_spans calls)) = cr_left ` set (records_of ts)"
    using left_edges_diffs [of 0 "xs @ [num_loci ts]"] l(3)
    by (simp add: es xs butlast_append)
  ultimately show ?thesis by (simp add: it)
qed

lemma local_trees_list:
  "local_trees ts =
     list_all (\<lambda>x. length (covering ts x) = unat (sample_size ts) - 1) [0..<unat (num_loci ts)]"
  by (auto simp: local_trees_def list_all_iff)

lemma invariants_S2: "data_model_invariants store_S2"
proof -
  have "store_allocated store_S2" by code_simp
  moreover have "records_valid store_S2" by code_simp
  moreover have "records_sorted store_S2" by code_simp
  moreover have "local_trees store_S2" unfolding local_trees_list by code_simp
  moreover have "breakpoints_valid store_S2" by code_simp
  ultimately show ?thesis by (simp add: data_model_invariants_def)
qed

lemma it0_S2_eq:
  "tree_diff_iterator_alloc all_granted blank_iterator store_S2 0 =
     (Ret0, it0_S2, \<lparr>mem_plan = [True, True, True, True], mem_live = 3\<rparr>)"
  by (simp add: it0_S2_def tree_diff_iterator_alloc_def object_heap_init_def malloc_def
      all_granted_def numeral_eq_Suc Let_def)

theorem distinct_trees_span_partition_witness:
  "data_model_invariants store_S2 \<and> 3 * unat (sample_size store_S2) < 2 ^ 32 \<and>
   (0 :: 32 word) AND 1 = 0 \<and>
   tree_diff_iterator_alloc all_granted blank_iterator store_S2 0 =
     (Ret0, it0_S2, \<lparr>mem_plan = [True, True, True, True], mem_live = 3\<rparr>) \<and>
   num_records store_S2 < 6 \<and>
   fst (last (fst (iterate 1 6 it0_S2 (0, [], [])))) = Ret0 \<and>
   fst ` set (butlast (fst (iterate 1 6 it0_S2 (0, [], [])))) = {Ret1} \<and>
   sum_list (map unat (emitted_spans (fst (iterate 1 6 it0_S2 (0, [], []))))) =
     unat (num_loci store_S2) \<and>
   set (left_edges 0 (emitted_spans (fst (iterate 1 6 it0_S2 (0, [], []))))) =
     cr_left ` set (records_of store_S2) \<and>
   emitted_spans (fst (iterate 1 6 it0_S2 (0, [], []))) = [4, 6]"
proof -
  have n: "3 * unat (sample_size store_S2) < 2 ^ 32" "num_records store_S2 < 6"
    by (simp_all add: store_S2_def)
  have f: "(0 :: 32 word) AND 1 = 0" by simp
  have e: "emitted_spans (fst (iterate 1 6 it0_S2 (0, [], []))) = [4, 6]" by code_simp
  show ?thesis
    using distinct_trees_span_partition [OF invariants_S2 n(1) f it0_S2_eq n(2), of "(0, [], [])"]
      invariants_S2 n f it0_S2_eq e
    by simp
qed

section \<open>A store with more samples than a third of \<open>2 ^ 32\<close>\<close>

text \<open>
  One tree on \<open>1431655766\<close> samples over one locus, a caterpillar: record \<open>0\<close> joins the samples
  \<open>1\<close> and \<open>2\<close>, record \<open>i\<close> joins the node of record \<open>i - 1\<close> and the sample \<open>i + 2\<close>.
\<close>

definition wide_record :: "nat \<Rightarrow> coalescence_record_t" where
  "wide_record i =
     \<lparr>cr_left = 0, cr_right = 1, cr_node = of_nat (1431655767 + i),
      cr_children0 = (if i = 0 then 1 else of_nat (1431655766 + i)),
      cr_children1 = of_nat (i + 2),
      cr_time = 0x3FF0000000000000 + of_nat i\<rparr>"

definition store_wide :: tree_sequence_t where
  "store_wide =
     \<lparr>sample_size = 1431655766, num_loci = 1, num_records = 1431655765, num_breakpoints = 2,
      breakpoints = Some [0, 1],
      left = Some (map (\<lambda>i. cr_left (wide_record i)) [0..<1431655765]),
      right = Some (map (\<lambda>i. cr_right (wide_record i)) [0..<1431655765]),
      node = Some (map (\<lambda>i. cr_node (wide_record i)) [0..<1431655765]),
      children = Some (map (\<lambda>k. if even k then cr_children0 (wide_record (k div 2))
                                   else cr_children1 (wide_record (k div 2)))
                         [0..<2 * 1431655765]),
      time = Some (map (\<lambda>i. cr_time (wide_record i)) [0..<1431655765])\<rparr>"

lemma stored_record_wide:
  assumes "i < 1431655765"
  shows "stored_record store_wide i = wide_record i"
  using assms by (simp add: stored_record_def store_wide_def)

lemma records_of_wide: "records_of store_wide = map wide_record [0..<1431655765]"
  by (simp add: records_of_def stored_record_wide store_wide_def [THEN arg_cong, of num_records])

lemma num_records_wide: "num_records store_wide = 1431655765"
  by (simp add: store_wide_def)

lemma invariants_wide: "data_model_invariants store_wide"
proof -
  let ?rs = "records_of store_wide"
  have l: "\<forall>r\<in>set ?rs. cr_left r = 0 \<and> cr_right r = 1"
    by (auto simp: records_of_wide wide_record_def)
  have ne: "wide_record 0 \<in> set ?rs" by (simp add: records_of_wide)
  have "store_allocated store_wide" by (simp add: store_allocated_def store_wide_def)
  moreover have "records_valid store_wide"
    using l by (simp add: records_valid_def store_wide_def [THEN arg_cong, of num_loci])
  moreover have "map cr_left ?rs = replicate (length ?rs) 0"
    using l by (simp add: map_replicate_const [symmetric] del: length_records_of)
  then have "records_sorted store_wide"
    by (simp add: records_sorted_def sorted_replicate del: length_records_of)
  moreover have "covering store_wide 0 = ?rs"
    using l by (simp add: covering_def filter_id_conv)
  then have "local_trees store_wide"
    by (simp add: local_trees_def num_records_wide
        store_wide_def [THEN arg_cong, of num_loci] store_wide_def [THEN arg_cong, of sample_size])
  moreover have "cr_left ` set ?rs = {0}" "cr_right ` set ?rs = {1}"
    using l ne by (auto simp: image_iff wide_record_def)
  then have "breakpoints_valid store_wide"
    by (simp add: breakpoints_valid_def store_wide_def [THEN arg_cong, of breakpoints]
        store_wide_def [THEN arg_cong, of num_loci] insert_commute)
  ultimately show ?thesis by (simp add: data_model_invariants_def)
qed

definition it0_wide :: tree_diff_iterator_t where
  "it0_wide =
     \<lparr>tree_sequence = store_wide, flags = 0, current_left = 0, next_record_index = 0,
      current_breakpoint_index = 0, next_breakpoint = 0, it_num_records = 1431655765,
      nodes_in = [], active_nodes = [],
      tree_node_heap = \<lparr>oh_top = 2, oh_allocs = 0, oh_frees = 0\<rparr>,
      tree_node_list_heap = \<lparr>oh_top = 1431655766, oh_allocs = 0, oh_frees = 0\<rparr>,
      avl_node_heap = \<lparr>oh_top = 1431655766, oh_allocs = 0, oh_frees = 0\<rparr>\<rparr>"

lemma it0_wide_eq:
  "tree_diff_iterator_alloc \<lparr>mem_plan = [True, True, True], mem_live = 0\<rparr> blank_iterator
     store_wide 0 =
     (Ret0, it0_wide, \<lparr>mem_plan = [], mem_live = 3\<rparr>)"
  by (simp add: it0_wide_def tree_diff_iterator_alloc_def object_heap_init_def malloc_def
      Let_def blank_iterator_def tree_sequence_get_num_coalescence_records_def num_records_wide
      store_wide_def [THEN arg_cong, of sample_size])

lemma get_record_wide:
  assumes "i < 1431655765"
  shows "tree_sequence_get_record store_wide i cr = (Ret0, store_wide, wide_record i)"
proof -
  have "store_allocated store_wide" using invariants_wide by (simp add: data_model_invariants_def)
  from get_record_in_range [OF this, of i cr] assms show ?thesis
    by (simp add: num_records_wide stored_record_wide)
qed

lemma absorb_wide:
  "fst (absorb_records it0_wide zero_record) = Err MSP_ERR_NO_MEMORY"
  apply (subst absorb_records.simps)
  apply (simp add: it0_wide_def get_record_wide wide_record_def
      tree_diff_iterator_process_record_def tree_diff_iterator_alloc_tree_node_def
      tree_diff_iterator_alloc_avl_node_def object_heap_empty_def object_heap_alloc_object_def
      Let_def)
  apply (subst absorb_records.simps)
  apply (simp add: get_record_wide wide_record_def
      tree_diff_iterator_process_record_def tree_diff_iterator_alloc_tree_node_def
      object_heap_empty_def object_heap_alloc_object_def Let_def)
  done

lemma iterate_stops:
  assumes "0 < fuel" "tree_diff_iterator_next all_bp self params = (ret, params', self')"
    and "ret \<noteq> Ret1"
  shows "iterate all_bp fuel self params = ([(ret, params')], self')"
  using assms by (cases fuel) simp_all

lemma run_wide:
  "fst (iterate 1 1431655766 it0_wide (0, [], [])) = [(Err MSP_ERR_NO_MEMORY, (0, [], []))]"
proof -
  obtain cr s where a: "absorb_records it0_wide zero_record = (Err MSP_ERR_NO_MEMORY, cr, s)"
    using absorb_wide by (cases "absorb_records it0_wide zero_record") auto
  have r: "retire it0_wide = (Ret0, [], it0_wide)" by (simp add: retire_def it0_wide_def)
  have "tree_diff_iterator_next_tree it0_wide (0, [], []) =
      (Err MSP_ERR_NO_MEMORY, (0, [], []), s)"
    unfolding next_tree_retire r using a by (simp add: it0_wide_def)
  moreover have "flags it0_wide AND 1 = 0" by (simp add: it0_wide_def)
  ultimately have "tree_diff_iterator_next 1 it0_wide (0, [], []) =
      (Err MSP_ERR_NO_MEMORY, (0, [], []), s)"
    by (simp add: next_distinct)
  from iterate_stops [OF _ this] show ?thesis by simp
qed

text \<open>
  Claim C1 says that for every store satisfying the invariants of the data model a complete
  run in \<open>DISTINCT_TREES\<close> mode emits spans that add up to \<open>num_loci\<close>, with the left
  coordinates of the records as left edges. The code fails it on this store, which
  satisfies the invariants. The capacity \<open>3 * n\<close> of the tree-node arena, which the comment
  in \<open>tree_diff_iterator_alloc\<close> calls surely too much, is computed in \<open>uint32_t\<close>: for the
  \<open>1431655766\<close> samples of this store it is \<open>2\<close>. The first record takes both nodes, the
  second finds the arena empty, and the first call returns \<open>MSP_ERR_NO_MEMORY\<close>: the run
  emits no step, and \<open>num_loci\<close> is \<open>1\<close>.
\<close>

theorem wide_store_exhausts_tree_nodes:
  "data_model_invariants store_wide \<and>
   tree_diff_iterator_alloc \<lparr>mem_plan = [True, True, True], mem_live = 0\<rparr> blank_iterator
     store_wide 0 =
     (Ret0, it0_wide, \<lparr>mem_plan = [], mem_live = 3\<rparr>) \<and>
   oh_top (tree_node_heap it0_wide) = 2 \<and>
   num_records store_wide < 1431655766 \<and>
   fst (iterate 1 1431655766 it0_wide (0, [], [])) = [(Err MSP_ERR_NO_MEMORY, (0, [], []))] \<and>
   emitted_spans (fst (iterate 1 1431655766 it0_wide (0, [], []))) = [] \<and>
   num_loci store_wide = 1"
  using invariants_wide it0_wide_eq run_wide
  by (simp add: emitted_spans_def num_records_wide it0_wide_def
      store_wide_def [THEN arg_cong, of num_loci])

section \<open>A run in \<open>ALL_BREAKPOINTS\<close> mode\<close>

text \<open>
  What the mode needs of the breakpoints: they increase strictly from \<open>0\<close> to \<open>num_loci\<close> and
  every left and right coordinate of a record is among them. The data model asks for more,
  that there is no other breakpoint.
\<close>

definition breakpoints_cover :: "tree_sequence_t \<Rightarrow> bool" where
  "breakpoints_cover ts \<longleftrightarrow>
     (case breakpoints ts of
        None \<Rightarrow> False
      | Some bs \<Rightarrow>
          sorted_wrt (<) bs \<and> bs \<noteq> [] \<and> hd bs = 0 \<and> last bs = num_loci ts \<and>
          cr_left ` set (records_of ts) \<union> cr_right ` set (records_of ts) \<subseteq> set bs)"

lemma breakpoints_valid_cover: "breakpoints_valid ts \<Longrightarrow> breakpoints_cover ts"
  by (auto simp: breakpoints_valid_def breakpoints_cover_def split: option.splits)

lemma breakpoint_after:
  fixes bs :: "u32 list"
  assumes "sorted_wrt (<) bs" "k < length bs" "bs ! k < v" "v \<in> set bs"
  shows "Suc k < length bs \<and> bs ! Suc k \<le> v"
proof -
  from assms(4) obtain m where m: "m < length bs" "bs ! m = v" by (auto simp: in_set_conv_nth)
  have "k < m"
  proof (rule ccontr)
    assume "\<not> k < m"
    then have "m = k \<or> m < k" by auto
    then have "bs ! m \<le> bs ! k"
      using sorted_wrt_nth_less [OF assms(1), of m k] assms(2) by auto
    then show False using assms(3) m(2) by simp
  qed
  then have "Suc k = m \<or> Suc k < m" by auto
  then have "bs ! Suc k \<le> bs ! m"
    using sorted_wrt_nth_less [OF assms(1), of "Suc k" m] m(1) by auto
  then show ?thesis using m \<open>k < m\<close> by simp
qed

lemma breakpoint_before_last:
  fixes bs :: "u32 list"
  assumes "sorted_wrt (<) bs" "Suc k < length bs"
  shows "bs ! k < last bs"
proof -
  have "last bs = bs ! (length bs - 1)" using assms(2) by (cases bs) (simp_all add: last_conv_nth)
  then show ?thesis using sorted_wrt_nth_less [OF assms(1), of k "length bs - 1"] assms(2) by simp
qed

lemma advance_breakpoint_eq:
  assumes "breakpoints (tree_sequence self) = Some bs" "current_breakpoint_index self = k"
    and "Suc k < length bs"
  shows "advance_breakpoint self params =
           (Ret1, (bs ! Suc k - bs ! k, fst (snd params), snd (snd params)),
            self\<lparr>current_breakpoint_index := Suc k\<rparr>)"
  using assms by (simp add: advance_breakpoint_def array_get_def Let_def)

lemma at_group_breakpoint_fields [simp]:
  "at_group ts (self\<lparr>next_breakpoint := a\<rparr>) i = at_group ts self i"
  "at_group ts (self\<lparr>current_breakpoint_index := b\<rparr>) i = at_group ts self i"
  by (simp_all add: at_group_def)

text \<open>
  The iterator before the call for breakpoint \<open>k\<close>, when the records before record \<open>j\<close> have
  been taken up: \<open>next_breakpoint\<close> is the left coordinate of the next tree, or \<open>num_loci\<close>
  when no record is left, and breakpoint \<open>k\<close> has not passed it.
\<close>

definition at_breakpoint ::
  "32 word \<Rightarrow> tree_sequence_t \<Rightarrow> tree_diff_iterator_t \<Rightarrow> nat \<Rightarrow> nat \<Rightarrow> bool" where
  "at_breakpoint all_bp ts self k j \<longleftrightarrow>
     tree_sequence self = ts \<and> flags self AND all_bp \<noteq> 0 \<and>
     current_breakpoint_index self = k \<and> k < num_breakpoints ts \<and>
     (if j < num_records ts
      then at_group ts self j \<and> next_breakpoint self = cr_left (records_of ts ! j)
      else next_breakpoint self = num_loci ts) \<and>
     the (breakpoints ts) ! k \<le> next_breakpoint self"

lemma all_breakpoints_step:
  assumes "records_ok ts" "3 * unat (sample_size ts) < 2 ^ 32"
    and "breakpoints_cover ts" "breakpoints ts = Some bs"
    and "at_breakpoint all_bp ts self k j" "Suc k < num_breakpoints ts"
  shows "\<exists>out inn self' j'. tree_diff_iterator_next all_bp self p =
           (Ret1, (bs ! Suc k - bs ! k, out, inn), self') \<and>
         at_breakpoint all_bp ts self' (Suc k) j' \<and>
         (bs ! k \<notin> cr_left ` set (records_of ts) \<longrightarrow> out = [] \<and> inn = [])"
proof -
  let ?rs = "records_of ts" and ?v = "next_breakpoint self"
  have alloc: "store_allocated ts" and srt: "records_sorted ts" and val: "records_valid ts"
    using assms(1) by (simp_all add: records_ok_def)
  have len: "length bs = num_breakpoints ts"
    using alloc assms(4) by (auto simp: store_allocated_def split: option.splits)
  have inc: "sorted_wrt (<) bs" and lst: "last bs = num_loci ts"
    and cov: "cr_left ` set ?rs \<subseteq> set bs"
    using assms(3,4) by (simp_all add: breakpoints_cover_def)
  have "bs \<noteq> []" using assms(3,4) by (simp add: breakpoints_cover_def)
  then have "last bs \<in> set bs" by simp
  then have lmem: "num_loci ts \<in> set bs" using lst by simp
  from assms(5) have ts: "tree_sequence self = ts" and fl: "flags self AND all_bp \<noteq> 0"
    and k: "current_breakpoint_index self = k" and le: "bs ! k \<le> ?v"
    and st: "if j < num_records ts
             then at_group ts self j \<and> ?v = cr_left (?rs ! j) else ?v = num_loci ts"
    by (simp_all add: at_breakpoint_def assms(4))
  have vmem: "?v \<in> set bs"
  proof (cases "j < num_records ts")
    case True
    then have "?v \<in> cr_left ` set ?rs" using st by simp
    then show ?thesis using cov by auto
  next
    case False
    then show ?thesis using st lmem by simp
  qed
  have kl: "k < length bs" "Suc k < length bs" using assms(6) len by simp_all
  have bound: "k < (if num_breakpoints ts = 0 then 2 ^ 64 - 1 else num_breakpoints ts - 1)"
    using assms(6) by simp
  have get: "array_get (Some bs) k = Some (bs ! k)" using kl by (simp add: array_get_def)
  show ?thesis
  proof (cases "bs ! k = ?v")
    case False
    have call: "tree_diff_iterator_next all_bp self p =
        (Ret1, (bs ! Suc k - bs ! k, [], []), self\<lparr>current_breakpoint_index := Suc k\<rparr>)"
      using False bound get k ts assms(4)
        advance_breakpoint_eq [of self bs k "(fst p, [], [])"] kl(2)
      by (subst next_all_breakpoints [OF fl]) (simp add: Let_def)
    from False le have "bs ! k < ?v" by simp
    from breakpoint_after [OF inc kl(1) this vmem] have "bs ! Suc k \<le> ?v" by simp
    then have "at_breakpoint all_bp ts (self\<lparr>current_breakpoint_index := Suc k\<rparr>) (Suc k) j"
      using ts fl st assms(6) by (simp add: at_breakpoint_def assms(4))
    then show ?thesis using call by blast
  next
    case True
    have j: "j < num_records ts"
    proof (rule ccontr)
      assume "\<not> j < num_records ts"
      then have "?v = last bs" using st lst by simp
      then show False using breakpoint_before_last [OF inc kl(2)] True by simp
    qed
    then have g: "at_group ts self j" and v: "?v = cr_left (?rs ! j)" using st by simp_all
    define j' where "j' = j + length (group_at ts j)"
    define nx where "nx = (if j' < num_records ts then cr_left (?rs ! j') else num_loci ts)"
    from next_tree_step [OF assms(1,2) g j'_def, of p]
    obtain out self1 where
      nt: "tree_diff_iterator_next_tree self p =
        (Ret1, (nx - cr_left (?rs ! j), out, map node_of (group_at ts j)), self1)"
      and st1: "same_store self self1"
      and k1: "current_breakpoint_index self1 = current_breakpoint_index self"
      and v1: "next_breakpoint self1 = ?v"
      and nxt: "if j' < num_records ts then at_group ts self1 j' else at_end self1"
      unfolding nx_def by blast
    have ts1: "tree_sequence self1 = ts" and fl1: "flags self1 AND all_bp \<noteq> 0"
      using st1 ts fl by (simp_all add: same_store_def)
    define self2 where "self2 = self1\<lparr>next_breakpoint := nx\<rparr>"
    have sum: "next_breakpoint self1 + (nx - cr_left (?rs ! j)) = nx" using v1 v by simp
    have adv: "advance_breakpoint self2 (nx - cr_left (?rs ! j), out, map node_of (group_at ts j)) =
        (Ret1, (bs ! Suc k - bs ! k, out, map node_of (group_at ts j)),
         self2\<lparr>current_breakpoint_index := Suc k\<rparr>)"
      using advance_breakpoint_eq [of self2 bs k
          "(nx - cr_left (?rs ! j), out, map node_of (group_at ts j))"] kl(2) ts1 k1 k assms(4)
      by (simp add: self2_def)
    have call: "tree_diff_iterator_next all_bp self p =
        (Ret1, (bs ! Suc k - bs ! k, out, map node_of (group_at ts j)),
         self2\<lparr>current_breakpoint_index := Suc k\<rparr>)"
      using True bound get ts k assms(4) nt ts1 sum adv
      by (subst next_all_breakpoints [OF fl]) (simp add: Let_def self2_def)
    have gt: "bs ! k < nx"
    proof (cases "j' < num_records ts")
      case more: True
      then show ?thesis
        using next_group_start(3) [OF srt j more [unfolded j'_def]] True v
        by (simp add: nx_def j'_def)
    next
      case False
      then show ?thesis using breakpoint_before_last [OF inc kl(2)] lst by (simp add: nx_def)
    qed
    have nmem: "nx \<in> set bs"
    proof (cases "j' < num_records ts")
      case True
      then have "cr_left (?rs ! j') \<in> cr_left ` set ?rs" by simp
      then show ?thesis using cov True by (auto simp: nx_def)
    next
      case False
      then show ?thesis using lmem by (simp add: nx_def)
    qed
    from breakpoint_after [OF inc kl(1) gt nmem] have "bs ! Suc k \<le> nx" by simp
    then have "at_breakpoint all_bp ts (self2\<lparr>current_breakpoint_index := Suc k\<rparr>) (Suc k) j'"
      using ts1 fl1 nxt assms(6) by (simp add: at_breakpoint_def assms(4) self2_def nx_def)
    moreover have "bs ! k \<in> cr_left ` set ?rs" using True v j by simp
    ultimately show ?thesis using call by blast
  qed
qed

lemma all_breakpoints_end:
  assumes "at_breakpoint all_bp ts self k j" "Suc k = num_breakpoints ts"
  shows "tree_diff_iterator_next all_bp self p = (Ret0, p, self)"
proof -
  from assms(1) have fl: "flags self AND all_bp \<noteq> 0" and ts: "tree_sequence self = ts"
    and k: "current_breakpoint_index self = k"
    by (simp_all add: at_breakpoint_def)
  show ?thesis
    using ts k assms(2) [symmetric]
    by (subst next_all_breakpoints [OF fl]) (simp add: Let_def)
qed

lemma length_diffs: "length (diffs xs) = length xs - 1"
  by (induction xs rule: diffs.induct) simp_all

lemma diffs_nth: "Suc k < length xs \<Longrightarrow> diffs xs ! k = xs ! Suc k - xs ! k"
proof (induction xs arbitrary: k rule: diffs.induct)
  case (1 a b xs)
  then show ?case by (cases k) simp_all
qed simp_all

text \<open>
  From breakpoint \<open>k\<close> on, the calls return \<open>1\<close> once for every breakpoint but the last and
  then \<open>0\<close>; the spans are the differences of the breakpoints, and a step at a breakpoint
  that is no left coordinate has empty lists.
\<close>

lemma all_breakpoints_run:
  assumes "records_ok ts" "3 * unat (sample_size ts) < 2 ^ 32"
    and "breakpoints_cover ts" "breakpoints ts = Some bs"
    and "at_breakpoint all_bp ts self k j" "num_breakpoints ts - k \<le> fuel"
  shows "\<exists>calls self'. iterate all_bp fuel self p = (calls, self') \<and>
           map fst calls = replicate (num_breakpoints ts - Suc k) Ret1 @ [Ret0] \<and>
           map (\<lambda>c. fst (snd c)) (butlast calls) = diffs (drop k bs) \<and>
           list_all2 (\<lambda>b c. b \<notin> cr_left ` set (records_of ts) \<longrightarrow> snd (snd c) = ([], []))
             (butlast (drop k bs)) (butlast calls)"
  using assms(5-)
proof (induction fuel arbitrary: self k j p)
  case 0
  then show ?case by (simp add: at_breakpoint_def)
next
  case (Suc fuel)
  have len: "length bs = num_breakpoints ts"
    using assms(1,4) by (auto simp: records_ok_def store_allocated_def split: option.splits)
  from Suc.prems(1) have k: "k < num_breakpoints ts" by (simp add: at_breakpoint_def)
  show ?case
  proof (cases "Suc k < num_breakpoints ts")
    case True
    from all_breakpoints_step [OF assms(1-4) Suc.prems(1) True, of p]
    obtain out inn self1 j' where
      call: "tree_diff_iterator_next all_bp self p =
        (Ret1, (bs ! Suc k - bs ! k, out, inn), self1)"
      and nxt: "at_breakpoint all_bp ts self1 (Suc k) j'"
      and emp: "bs ! k \<notin> cr_left ` set (records_of ts) \<longrightarrow> out = [] \<and> inn = []"
      by blast
    have "num_breakpoints ts - Suc k \<le> fuel" using Suc.prems(2) by simp
    from Suc.IH [OF nxt this, of "(bs ! Suc k - bs ! k, out, inn)"]
    obtain calls self' where
      it: "iterate all_bp fuel self1 (bs ! Suc k - bs ! k, out, inn) = (calls, self')"
      and rets: "map fst calls = replicate (num_breakpoints ts - Suc (Suc k)) Ret1 @ [Ret0]"
      and sp: "map (\<lambda>c. fst (snd c)) (butlast calls) = diffs (drop (Suc k) bs)"
      and em: "list_all2 (\<lambda>b c. b \<notin> cr_left ` set (records_of ts) \<longrightarrow> snd (snd c) = ([], []))
             (butlast (drop (Suc k) bs)) (butlast calls)"
      by blast
    from rets have ne: "calls \<noteq> []" by auto
    have d1: "drop k bs = bs ! k # drop (Suc k) bs"
      using k len by (simp add: Cons_nth_drop_Suc)
    have d2: "drop (Suc k) bs = bs ! Suc k # drop (Suc (Suc k)) bs"
      using True len by (simp add: Cons_nth_drop_Suc)
    have n: "num_breakpoints ts - Suc k = Suc (num_breakpoints ts - Suc (Suc k))"
      using True by simp
    have "iterate all_bp (Suc fuel) self p =
        ((Ret1, (bs ! Suc k - bs ! k, out, inn)) # calls, self')"
      using call it by simp
    moreover have "map fst ((Ret1, (bs ! Suc k - bs ! k, out, inn)) # calls) =
        replicate (num_breakpoints ts - Suc k) Ret1 @ [Ret0]"
      using rets by (simp add: n)
    moreover have "map (\<lambda>c. fst (snd c)) (butlast ((Ret1, (bs ! Suc k - bs ! k, out, inn)) # calls)) =
        diffs (drop k bs)"
      using sp ne by (simp add: d1) (simp add: d2)
    moreover have "list_all2 (\<lambda>b c. b \<notin> cr_left ` set (records_of ts) \<longrightarrow> snd (snd c) = ([], []))
        (butlast (drop k bs)) (butlast ((Ret1, (bs ! Suc k - bs ! k, out, inn)) # calls))"
    proof -
      have "drop (Suc k) bs \<noteq> []" using True len by simp
      then have "butlast (drop k bs) = bs ! k # butlast (drop (Suc k) bs)"
        by (subst d1) simp
      then show ?thesis using em emp ne by simp
    qed
    ultimately show ?thesis by blast
  next
    case False
    then have e: "Suc k = num_breakpoints ts" using k by simp
    have "drop k bs = [bs ! k]" using e len by (simp add: Cons_nth_drop_Suc [symmetric])
    then show ?thesis
      using all_breakpoints_end [OF Suc.prems(1) e, of p] e by simp
  qed
qed

lemma alloc_at_breakpoint:
  assumes "records_ok ts" "0 < num_records ts" "breakpoints_cover ts"
    and "flgs AND all_bp \<noteq> 0"
    and "tree_diff_iterator_alloc mem self0 ts flgs = (Ret0, it0, mem0)"
  shows "at_breakpoint all_bp ts it0 0 0"
proof -
  obtain bs where bs: "breakpoints ts = Some bs" "bs \<noteq> []" "hd bs = 0"
    using assms(3) by (auto simp: breakpoints_cover_def split: option.splits)
  have "length bs = num_breakpoints ts"
    using assms(1) bs(1) by (auto simp: records_ok_def store_allocated_def split: option.splits)
  then have "0 < num_breakpoints ts" using bs(2) by (cases bs) auto
  moreover have "bs ! 0 = 0" using bs(2,3) by (simp add: hd_conv_nth)
  ultimately show ?thesis
    using alloc_ok [OF assms(5)] alloc_at_group [OF assms(1,2,5)]
      first_left_is_zero [OF assms(1,2)] assms(2,4) bs(1)
    by (simp add: at_breakpoint_def)
qed

text \<open>
  The spans in \<open>ALL_BREAKPOINTS\<close> mode where the store has records and the arena's capacity
  does not wrap. In this mode (the flag \<open>MSP_ALL_BREAKPOINTS\<close> is set), for every store
  with at least one record that satisfies invariants 1 and 2 of the data model, whose
  breakpoints increase strictly from \<open>0\<close> to \<open>num_loci\<close> and include every left and right
  coordinate, and whose \<open>3 * sample_size\<close> is below \<open>2 ^ 32\<close>: on an iterator set up by
  \<open>tree_diff_iterator_alloc\<close>, \<open>tree_diff_iterator_next\<close> returns \<open>1\<close> exactly
  \<open>num_breakpoints - 1\<close> times and then \<open>0\<close>; the span of step \<open>k\<close> is
  \<open>breakpoints[k + 1] - breakpoints[k]\<close>, so that the spans add up to \<open>num_loci\<close>; and a step
  whose breakpoint is not the left coordinate of a record has empty \<open>out\<close> and \<open>in\<close> lists.
\<close>

theorem all_breakpoints_span_partition:
  assumes "records_ok ts" "0 < num_records ts" "breakpoints_cover ts"
    and "3 * unat (sample_size ts) < 2 ^ 32"
    and "flgs AND MSP_ALL_BREAKPOINTS \<noteq> 0"
    and "tree_diff_iterator_alloc mem self0 ts flgs = (Ret0, it0, mem0)"
    and "num_breakpoints ts \<le> fuel"
  shows "map fst (fst (iterate MSP_ALL_BREAKPOINTS fuel it0 p)) =
           replicate (num_breakpoints ts - 1) Ret1 @ [Ret0] \<and>
         (\<forall>k<num_breakpoints ts - 1.
            fst (snd (fst (iterate MSP_ALL_BREAKPOINTS fuel it0 p) ! k)) =
              the (breakpoints ts) ! Suc k - the (breakpoints ts) ! k) \<and>
         sum_list (map unat (emitted_spans (fst (iterate MSP_ALL_BREAKPOINTS fuel it0 p)))) =
           unat (num_loci ts) \<and>
         (\<forall>k<num_breakpoints ts - 1.
            the (breakpoints ts) ! k \<notin> cr_left ` set (records_of ts) \<longrightarrow>
            snd (snd (fst (iterate MSP_ALL_BREAKPOINTS fuel it0 p) ! k)) = ([], []))"
proof -
  obtain bs where bs: "breakpoints ts = Some bs" and inc: "sorted_wrt (<) bs"
    and ne: "bs \<noteq> []" and hd: "hd bs = 0" and lst: "last bs = num_loci ts"
    using assms(3) by (auto simp: breakpoints_cover_def split: option.splits)
  have len: "length bs = num_breakpoints ts"
    using assms(1) bs by (auto simp: records_ok_def store_allocated_def split: option.splits)
  note start = alloc_at_breakpoint [OF assms(1,2,3,5,6)]
  from all_breakpoints_run [OF assms(1,4,3) bs start, of fuel p] assms(7)
  obtain calls self' where it: "iterate MSP_ALL_BREAKPOINTS fuel it0 p = (calls, self')"
    and rets: "map fst calls = replicate (num_breakpoints ts - 1) Ret1 @ [Ret0]"
    and sp: "map (\<lambda>c. fst (snd c)) (butlast calls) = diffs bs"
    and em: "list_all2 (\<lambda>b c. b \<notin> cr_left ` set (records_of ts) \<longrightarrow> snd (snd c) = ([], []))
               (butlast bs) (butlast calls)"
    by auto
  note s = rets_split [OF rets]
  have lc: "length (butlast calls) = num_breakpoints ts - 1"
    using s(2) by (metis length_map length_replicate)
  have nth: "butlast calls ! k = calls ! k" if "k < num_breakpoints ts - 1" for k
    using that lc by (simp add: nth_butlast)
  have spans: "\<forall>k<num_breakpoints ts - 1. fst (snd (calls ! k)) = bs ! Suc k - bs ! k"
  proof (intro allI impI)
    fix k assume k: "k < num_breakpoints ts - 1"
    then have "map (\<lambda>c. fst (snd c)) (butlast calls) ! k = fst (snd (calls ! k))"
      using lc nth by simp
    moreover have "diffs bs ! k = bs ! Suc k - bs ! k" using k len by (simp add: diffs_nth)
    ultimately show "fst (snd (calls ! k)) = bs ! Suc k - bs ! k" using sp by simp
  qed
  have empty: "\<forall>k<num_breakpoints ts - 1.
      bs ! k \<notin> cr_left ` set (records_of ts) \<longrightarrow> snd (snd (calls ! k)) = ([], [])"
  proof (intro allI impI)
    fix k assume k: "k < num_breakpoints ts - 1" and b: "bs ! k \<notin> cr_left ` set (records_of ts)"
    from list_all2_nthD [OF em, of k] k len
    have "butlast bs ! k \<notin> cr_left ` set (records_of ts) \<longrightarrow>
        snd (snd (butlast calls ! k)) = ([], [])" by simp
    then show "snd (snd (calls ! k)) = ([], [])"
      using b k len nth by (simp add: nth_butlast)
  qed
  have "sorted bs" using inc by (rule sorted_wrt_mono_rel [rotated]) simp
  moreover obtain xs where xs: "bs = 0 # xs" using ne hd by (cases bs) auto
  ultimately have "sum_list (map unat (diffs bs)) = unat (last bs)"
    using sum_diffs [of 0 xs] by simp
  then have "sum_list (map unat (emitted_spans calls)) = unat (num_loci ts)"
    using emitted_spans_butlast [OF rets] sp lst by simp
  then show ?thesis using rets spans empty by (simp add: it bs)
qed

text \<open>
  The store of scenario S2 with one more breakpoint, \<open>2\<close>, at which no record starts.
\<close>

definition store_S2_fine :: tree_sequence_t where
  "store_S2_fine = store_S2\<lparr>num_breakpoints := 4, breakpoints := Some [0, 2, 4, 10]\<rparr>"

definition it0_S2_fine :: tree_diff_iterator_t where
  "it0_S2_fine = fst (snd (tree_diff_iterator_alloc all_granted blank_iterator store_S2_fine 1))"

definition it0_S5 :: tree_diff_iterator_t where
  "it0_S5 = fst (snd (tree_diff_iterator_alloc all_granted blank_iterator store_S5 1))"

lemma it0_S2_fine_eq:
  "tree_diff_iterator_alloc all_granted blank_iterator store_S2_fine 1 =
     (Ret0, it0_S2_fine, \<lparr>mem_plan = [True, True, True, True], mem_live = 3\<rparr>)"
  by (simp add: it0_S2_fine_def tree_diff_iterator_alloc_def object_heap_init_def malloc_def
      all_granted_def numeral_eq_Suc Let_def)

lemma records_ok_S2_fine: "records_ok store_S2_fine"
proof -
  have "store_allocated store_S2_fine" by code_simp
  moreover have "records_valid store_S2_fine" by code_simp
  moreover have "records_sorted store_S2_fine" by code_simp
  moreover have "local_trees store_S2_fine" unfolding local_trees_list by code_simp
  ultimately show ?thesis by (simp add: records_ok_def)
qed

lemma cover_S2_fine: "breakpoints_cover store_S2_fine"
  by code_simp

theorem all_breakpoints_span_partition_witness:
  "records_ok store_S2_fine \<and> 0 < num_records store_S2_fine \<and>
   breakpoints_cover store_S2_fine \<and> 3 * unat (sample_size store_S2_fine) < 2 ^ 32 \<and>
   (1 :: 32 word) AND 1 \<noteq> 0 \<and>
   tree_diff_iterator_alloc all_granted blank_iterator store_S2_fine 1 =
     (Ret0, it0_S2_fine, \<lparr>mem_plan = [True, True, True, True], mem_live = 3\<rparr>) \<and>
   num_breakpoints store_S2_fine \<le> 4 \<and>
   map fst (fst (iterate 1 4 it0_S2_fine (0, [], []))) = [Ret1, Ret1, Ret1, Ret0] \<and>
   map (\<lambda>c. fst (snd c)) (fst (iterate 1 4 it0_S2_fine (0, [], []))) = [2, 2, 6, 6] \<and>
   sum_list (map unat (emitted_spans (fst (iterate 1 4 it0_S2_fine (0, [], []))))) = 10 \<and>
   2 \<notin> cr_left ` set (records_of store_S2_fine) \<and>
   snd (snd (fst (iterate 1 4 it0_S2_fine (0, [], [])) ! 1)) = ([], [])"
proof -
  have n: "0 < num_records store_S2_fine" "3 * unat (sample_size store_S2_fine) < 2 ^ 32"
    "num_breakpoints store_S2_fine \<le> 4"
    by (simp_all add: store_S2_fine_def store_S2_def)
  have f: "(1 :: 32 word) AND 1 \<noteq> 0" by simp
  note t = all_breakpoints_span_partition [OF records_ok_S2_fine n(1) cover_S2_fine n(2) f
      it0_S2_fine_eq n(3), of "(0, [], [])"]
  have nb: "num_breakpoints store_S2_fine = 4" "num_loci store_S2_fine = 10"
    "the (breakpoints store_S2_fine) ! Suc 0 = 2"
    by (simp_all add: store_S2_fine_def store_S2_def)
  have l: "2 \<notin> cr_left ` set (records_of store_S2_fine)" by code_simp
  have sp: "map (\<lambda>c. fst (snd c)) (fst (iterate 1 4 it0_S2_fine (0, [], []))) = [2, 2, 6, 6]"
    by code_simp
  have "map fst (fst (iterate 1 4 it0_S2_fine (0, [], []))) = [Ret1, Ret1, Ret1, Ret0]"
    using t [THEN conjunct1] by (simp add: nb numeral_eq_Suc)
  moreover
  have "sum_list (map unat (emitted_spans (fst (iterate 1 4 it0_S2_fine (0, [], []))))) = 10"
    using t [THEN conjunct2, THEN conjunct2, THEN conjunct1] by (simp add: nb)
  moreover
  have "snd (snd (fst (iterate 1 4 it0_S2_fine (0, [], [])) ! 1)) = ([], [])"
    using t [THEN conjunct2, THEN conjunct2, THEN conjunct2, rule_format, of 1] l
    by (simp add: nb)
  ultimately show ?thesis
    using records_ok_S2_fine cover_S2_fine n f it0_S2_fine_eq l sp by simp
qed

text \<open>
  Claim C3 says that in \<open>ALL_BREAKPOINTS\<close> mode every store, the one of scenario S5 with no
  record and the breakpoints \<open>0\<close> and \<open>10\<close> included, yields \<open>num_breakpoints - 1\<close> steps whose
  spans are the differences of the breakpoints. The code fails it on that store: the first
  call finds breakpoint \<open>0\<close> equal to \<open>next_breakpoint\<close> and calls
  \<open>tree_diff_iterator_next_tree\<close>, which has no record to take up and returns \<open>0\<close>, and the
  code's own \<open>assert(ret == 1)\<close> fails. No step is returned.
\<close>

theorem empty_store_fails_assertion:
  "num_records store_S5 = 0 \<and> breakpoints store_S5 = Some [0, 10] \<and>
   tree_diff_iterator_alloc all_granted blank_iterator store_S5 1 =
     (Ret0, it0_S5, \<lparr>mem_plan = [True, True, True, True], mem_live = 3\<rparr>) \<and>
   fst (iterate 1 2 it0_S5 (0, [], [])) = [(Err ASSERTION_FAILED, (0, [], []))]"
proof -
  have "tree_diff_iterator_alloc all_granted blank_iterator store_S5 1 =
     (Ret0, it0_S5, \<lparr>mem_plan = [True, True, True, True], mem_live = 3\<rparr>)"
    by (simp add: it0_S5_def tree_diff_iterator_alloc_def object_heap_init_def malloc_def
      all_granted_def numeral_eq_Suc Let_def)
  moreover have "fst (iterate 1 2 it0_S5 (0, [], [])) = [(Err ASSERTION_FAILED, (0, [], []))]"
    by code_simp
  ultimately show ?thesis by (simp add: store_S5_def)
qed

end
